theory Spec2Isabelle
  imports Main
begin

section \<open>The structured worker protocol of \<open>workerMain\<close> and \<open>useWorker\<close>\<close>

text \<open>
  The source runs on the operations of the effection library, which is not part of the
  repository. The model fixes their behaviour as follows.
  \<^item> \<open>on(target, "message")\<close>, once subscribed, buffers every message in arrival order;
    \<open>next()\<close> takes the oldest buffered message and suspends while there is none.
  \<^item> \<open>withResolvers()\<close> is a one-shot future: the first \<open>resolve\<close> or \<open>reject\<close> settles
    it, every later one changes nothing.
  \<^item> \<open>createSignal()\<close> is unbuffered: \<open>send\<close> appends the value to the queue of every
    subscription that exists at that moment, and to nothing else. \<open>each(signal)\<close>
    subscribes; the loop takes the queued values in order.
  \<^item> \<open>spawn\<close> starts a task that runs beside the others; \<open>scoped\<close> returns what its
    operation returns. \<open>workerMain\<close> itself never stops a task it has started, and the
    model does not rely on the library doing so: a task that was started may take its
    next step at any later time, also after its body has ended and after the terminal
    message. A library that halts a task is covered by the schedules in which that
    task takes no further step.
  Tasks interleave; a schedule is a list of events, each one atomic stretch of one task
  between two suspension points. An event that is not enabled yields \<open>None\<close>.

  Values travelling through the protocol (\<open>TSend\<close>, \<open>TRecv\<close>, \<open>TReturn\<close>, \<open>TData\<close>) are
  strings; a thrown \<open>Error\<close> is its message; a \<open>MessagePort\<close> is a number.
\<close>

type_synonym val = string
type_synonym err = string
type_synonym port = nat

datatype 'a result = Ok 'a | Err err

text \<open>\<open>WorkerControl\<close>: the messages the host posts to the worker.\<close>

datatype control = Init val | Send val port | Close

text \<open>
  The messages the worker posts to the host with \<open>self.postMessage\<close>. \<open>Other t\<close> is any
  other message, with \<open>t\<close> in its \<open>type\<close> field and no \<open>result\<close>; \<open>workerMain\<close> never posts
  one, a foreign worker script may.
\<close>

datatype lifecycle = Open | Closed "val result" | Other string

text \<open>
  A per-request handler \<open>fn\<close> given to \<open>forEach\<close>: \<open>Inr x\<close> when it returns \<open>x\<close>, \<open>Inl e\<close>
  when it throws \<open>e\<close>. The time it takes is the distance between the event that spawns
  it and the event that runs it to its end; a handler that never returns is one whose
  event never comes.
\<close>

type_synonym handler_fn = "val \<Rightarrow> err + val"

subsection \<open>The tasks of the worker\<close>

text \<open>The task spawned for an \<open>init\<close> message, which runs \<open>body\<close> with the message's data.\<close>

record body_task =
  bdata :: val
  bdone :: bool

text \<open>
  One call of \<open>messages.forEach(fn)\<close> by a body: the subscription \<open>each(sent)\<close> with its
  queue. \<open>lowner\<close> is the index of the body task that called it. \<open>lalive\<close> tells whether
  the subscription is among the subscribers of the signal; \<open>workerMain\<close> has no code that
  removes one.
\<close>

record loop_task =
  lowner :: nat
  lfn :: handler_fn
  lqueue :: "(val \<times> port) list"
  lalive :: bool

datatype hstatus = Pending | Finished

text \<open>The task spawned by \<open>forEach\<close> for one received \<open>{ value, response }\<close>.\<close>

record handler_task =
  howner :: nat
  hfn :: handler_fn
  hvalue :: val
  hresponse :: port
  hstatus :: hstatus

text \<open>
  The state of \<open>workerMain\<close>: \<open>controls\<close> is the buffer of the subscription of the same
  name, \<open>outcome\<close> the future of the same name, the members of \<open>loops\<close> are the
  subscribers of the signal \<open>sent\<close>. \<open>posted\<close> records \<open>self.postMessage\<close>, \<open>replies\<close>
  records \<open>response.postMessage\<close> with the port it was called on. \<open>finalized\<close> holds once
  \<open>scoped\<close> has returned and the terminal message is posted, the last statement of
  \<open>workerMain\<close>, which is reached once.
\<close>

record worker =
  controls :: "control list"
  outcome :: "val result option"
  bodies :: "body_task list"
  loops :: "loop_task list"
  handlers :: "handler_task list"
  posted :: "lifecycle list"
  replies :: "(port \<times> val result) list"
  finalized :: bool

text \<open>The state when the dispatch loop first waits: \<open>open\<close> is posted, nothing else happened.\<close>

definition worker_start :: worker where
  "worker_start =
     \<lparr>controls = [], outcome = None, bodies = [], loops = [], handlers = [],
      posted = [Open], replies = [], finalized = False\<rparr>"

text \<open>\<open>outcome.resolve(r)\<close>.\<close>

definition resolve :: "val result \<Rightarrow> worker \<Rightarrow> worker" where
  "resolve r w = (if outcome w = None then w\<lparr>outcome := Some r\<rparr> else w)"

text \<open>\<open>sent.send({ value, response })\<close>.\<close>

definition enqueue :: "val \<times> port \<Rightarrow> loop_task \<Rightarrow> loop_task" where
  "enqueue m l = (if lalive l then l\<lparr>lqueue := lqueue l @ [m]\<rparr> else l)"

definition sent_send :: "val \<times> port \<Rightarrow> worker \<Rightarrow> worker" where
  "sent_send m w = w\<lparr>loops := map (enqueue m) (loops w)\<rparr>"

definition worker_terminated :: err where
  "worker_terminated = ''worker terminated''"

text \<open>One turn of the dispatch loop on the control message it took from \<open>controls\<close>.\<close>

fun dispatch :: "control \<Rightarrow> worker \<Rightarrow> worker" where
  "dispatch (Init d) w = w\<lparr>bodies := bodies w @ [\<lparr>bdata = d, bdone = False\<rparr>]\<rparr>"
| "dispatch (Send v r) w = sent_send (v, r) w"
| "dispatch Close w = resolve (Err worker_terminated) w"

text \<open>The body task \<open>i\<close> ends with result \<open>r\<close>, which resolves \<open>outcome\<close>.\<close>

definition body_end :: "nat \<Rightarrow> val result \<Rightarrow> worker \<Rightarrow> worker" where
  "body_end i r w = (resolve r w)\<lparr>bodies := (bodies w)[i := (bodies w ! i)\<lparr>bdone := True\<rparr>]\<rparr>"

text \<open>A handler runs \<open>fn(value)\<close> to its end and posts the result on its response port.\<close>

definition to_result :: "err + val \<Rightarrow> val result" where
  "to_result x = (case x of Inr y \<Rightarrow> Ok y | Inl e \<Rightarrow> Err e)"

definition handler_run :: "nat \<Rightarrow> worker \<Rightarrow> worker" where
  "handler_run k w =
     (let h = handlers w ! k
      in w\<lparr>replies := replies w @ [(hresponse h, to_result (hfn h (hvalue h)))],
           handlers := (handlers w)[k := h\<lparr>hstatus := Finished\<rparr>]\<rparr>)"

text \<open>The loop of \<open>forEach\<close> takes the next queued request and spawns its handler.\<close>

definition loop_take :: "nat \<Rightarrow> worker \<Rightarrow> worker" where
  "loop_take j w =
     (let l = loops w ! j; m = hd (lqueue l)
      in w\<lparr>loops := (loops w)[j := l\<lparr>lqueue := tl (lqueue l)\<rparr>],
           handlers := handlers w @
             [\<lparr>howner = lowner l, hfn = lfn l, hvalue = fst m, hresponse = snd m,
               hstatus = Pending\<rparr>]\<rparr>)"

text \<open>\<open>scoped\<close> returns the settled outcome and the terminal message is posted.\<close>

definition finalize :: "val result \<Rightarrow> worker \<Rightarrow> worker" where
  "finalize r w = w\<lparr>posted := posted w @ [Closed r], finalized := True\<rparr>"

subsection \<open>The events of the worker\<close>

text \<open>
  \<open>Deliver c\<close>: the message \<open>c\<close> arrives from outside and is buffered. \<open>Dispatch\<close>: one
  turn of the dispatch loop. \<open>BodyForEach i f\<close>: body \<open>i\<close> calls \<open>messages.forEach(f)\<close>.
  \<open>LoopTake j\<close>: loop \<open>j\<close> takes a request and spawns its handler.
  \<open>HandlerRun k\<close>: handler \<open>k\<close> runs to its end. \<open>BodyReturn i v\<close> and \<open>BodyThrow i e\<close>:
  body \<open>i\<close> ends. \<open>Finalize\<close>: \<open>scoped\<close> returns and the terminal message is posted; it
  needs a settled outcome and happens once. A task body is thus any user code that
  calls \<open>forEach\<close> any number of times and then returns, throws, or runs for ever.
\<close>

datatype event =
    Deliver control
  | Dispatch
  | BodyForEach nat handler_fn
  | LoopTake nat
  | HandlerRun nat
  | BodyReturn nat val
  | BodyThrow nat err
  | Finalize

definition body_running :: "nat \<Rightarrow> worker \<Rightarrow> bool" where
  "body_running i w \<longleftrightarrow> i < length (bodies w) \<and> \<not> bdone (bodies w ! i)"

fun step :: "event \<Rightarrow> worker \<Rightarrow> worker option" where
  "step (Deliver c) w = Some (w\<lparr>controls := controls w @ [c]\<rparr>)"
| "step Dispatch w =
     (case controls w of
        [] \<Rightarrow> None
      | c # cs \<Rightarrow> Some (dispatch c (w\<lparr>controls := cs\<rparr>)))"
| "step (BodyForEach i f) w =
     (if body_running i w
      then Some (w\<lparr>loops := loops w @ [\<lparr>lowner = i, lfn = f, lqueue = [], lalive = True\<rparr>]\<rparr>)
      else None)"
| "step (LoopTake j) w =
     (if j < length (loops w) \<and> lalive (loops w ! j) \<and> lqueue (loops w ! j) \<noteq> []
      then Some (loop_take j w) else None)"
| "step (HandlerRun k) w =
     (if k < length (handlers w) \<and> hstatus (handlers w ! k) = Pending
      then Some (handler_run k w) else None)"
| "step (BodyReturn i v) w = (if body_running i w then Some (body_end i (Ok v) w) else None)"
| "step (BodyThrow i e) w = (if body_running i w then Some (body_end i (Err e) w) else None)"
| "step Finalize w =
     (if finalized w then None
      else case outcome w of None \<Rightarrow> None | Some r \<Rightarrow> Some (finalize r w))"

fun run :: "event list \<Rightarrow> worker \<Rightarrow> worker option" where
  "run [] w = Some w"
| "run (e # es) w = (case step e w of None \<Rightarrow> None | Some w' \<Rightarrow> run es w')"

subsection \<open>The host side: \<open>useWorker\<close>\<close>

text \<open>
  How the scope that holds the resource ends: its operation completed, it failed with an
  error (an error event of the worker transport is one such failure), or it was
  cancelled from outside.
\<close>

datatype exit = Completed | Failed err | Cancelled

text \<open>
  Where the resource function stands. \<open>Connecting\<close>: suspended in \<open>subscription.next()\<close>
  for the first message. \<open>Ready\<close>: inside \<open>try\<close>, suspended in \<open>provide\<close>, the handle is in
  the caller's hands. \<open>Closing x\<close>: inside \<open>finally\<close> after exit \<open>x\<close>, suspended in
  \<open>settled(outcome.operation)\<close>. \<open>Released x\<close>: the \<open>finally\<close> block is done.
  \<open>Refused e\<close>: the assertion on the first message threw \<open>e\<close>. \<open>Abandoned x\<close>: the scope
  ended while still connecting. \<open>Broken e\<close>: an operation awaited inside \<open>finally\<close> threw.
\<close>

datatype hphase =
    Connecting | Ready | Closing exit | Released exit | Refused err | Abandoned exit
  | Broken err

text \<open>
  The state of one \<open>useWorker\<close> resource. \<open>houtcome\<close> is its future \<open>outcome\<close> (\<open>Inr v\<close>
  resolved with \<open>v\<close>, \<open>Inl e\<close> rejected with \<open>e\<close>), \<open>listening\<close> tells whether \<open>onclose\<close> is
  registered on the worker, \<open>outbox\<close> records \<open>worker.postMessage\<close>. \<open>next_port\<close> counts the
  message channels created so far and names the next one. \<open>waiting\<close> holds the \<open>send\<close>
  calls suspended in \<open>once(channel.port1, "message")\<close>, \<open>returned\<close> what finished calls
  gave their callers (\<open>Inr\<close> returned, \<open>Inl\<close> thrown). \<open>hdata\<close> is \<open>options.data\<close>.
\<close>

record host =
  hphase :: hphase
  houtcome :: "(err + val) option"
  listening :: bool
  outbox :: "control list"
  next_port :: port
  waiting :: "(port \<times> val) list"
  returned :: "(port \<times> (err + val)) list"
  hdata :: val

text \<open>The state when the resource first suspends, waiting for the first message.\<close>

definition host_start :: "val \<Rightarrow> host" where
  "host_start d =
     \<lparr>hphase = Connecting, houtcome = None, listening = True, outbox = [],
      next_port = 0, waiting = [], returned = [], hdata = d\<rparr>"

text \<open>\<open>outcome.resolve\<close> and \<open>outcome.reject\<close> of the host's future.\<close>

definition hsettle :: "err + val \<Rightarrow> host \<Rightarrow> host" where
  "hsettle x h = (if houtcome h = None then h\<lparr>houtcome := Some x\<rparr> else h)"

text \<open>The listener \<open>onclose\<close>, called for every message while it is registered.\<close>

fun onclose :: "lifecycle \<Rightarrow> host \<Rightarrow> host" where
  "onclose (Closed (Ok v)) h = hsettle (Inr v) h"
| "onclose (Closed (Err e)) h = hsettle (Inl e) h"
| "onclose m h = h"

fun type_of :: "lifecycle \<Rightarrow> string" where
  "type_of Open = ''open''"
| "type_of (Closed r) = ''close''"
| "type_of (Other t) = t"

text \<open>The test \<open>first.value.data.type === "open"\<close> of the assertion, and its message.\<close>

definition is_open :: "lifecycle \<Rightarrow> bool" where
  "is_open m \<longleftrightarrow> type_of m = ''open''"

definition not_open :: "lifecycle \<Rightarrow> err" where
  "not_open m =
     ''expected first message to arrive from worker to be of type \"open\", but was: ''
       @ type_of m"

text \<open>
  The first message resumes the resource: the assertion, then \<open>init\<close> is posted and the
  handle provided.
\<close>

definition handshake :: "lifecycle \<Rightarrow> host \<Rightarrow> host" where
  "handshake m h =
     (if is_open m then h\<lparr>outbox := outbox h @ [Init (hdata h)], hphase := Ready\<rparr>
      else h\<lparr>hphase := Refused (not_open m)\<rparr>)"

text \<open>
  \<open>settled(operation)\<close>, applied to what awaiting \<open>operation\<close> gives. The result of
  \<open>settled\<close> is itself \<open>Inr\<close> when it returns and \<open>Inl\<close> when it throws.
\<close>

fun settled :: "err + 'a \<Rightarrow> err + unit result" where
  "settled (Inr v) = Inr (Ok ())"
| "settled (Inl e) = Inr (Err e)"

text \<open>The handle's \<open>send(value)\<close> up to its suspension, and its resumption by the response.\<close>

definition call_send :: "val \<Rightarrow> host \<Rightarrow> host" where
  "call_send v h =
     h\<lparr>outbox := outbox h @ [Send v (next_port h)],
       waiting := waiting h @ [(next_port h, v)],
       next_port := Suc (next_port h)\<rparr>"

definition of_result :: "val result \<Rightarrow> err + val" where
  "of_result r = (case r of Ok v \<Rightarrow> Inr v | Err e \<Rightarrow> Inl e)"

definition resume_send :: "port \<Rightarrow> val result \<Rightarrow> host \<Rightarrow> host" where
  "resume_send p r h =
     h\<lparr>waiting := filter (\<lambda>c. fst c \<noteq> p) (waiting h),
       returned := returned h @ [(p, of_result r)]\<rparr>"

text \<open>
  The \<open>finally\<close> block up to its suspension: \<open>close\<close> is posted. The calls still waiting
  belong to the scope that ends and are halted with it.
\<close>

definition begin_teardown :: "exit \<Rightarrow> host \<Rightarrow> host" where
  "begin_teardown x h = h\<lparr>outbox := outbox h @ [Close], waiting := [], hphase := Closing x\<rparr>"

text \<open>The rest of the \<open>finally\<close> block, once the host's future is settled with \<open>x\<close>.\<close>

definition end_teardown :: "exit \<Rightarrow> err + val \<Rightarrow> host \<Rightarrow> host" where
  "end_teardown x y h =
     (case settled y of
        Inl e \<Rightarrow> h\<lparr>hphase := Broken e\<rparr>
      | Inr r \<Rightarrow> h\<lparr>listening := False, hphase := Released x\<rparr>)"

text \<open>
  \<open>Receive m\<close>: a message event of the worker. \<open>CallSend v\<close>: \<open>send(v)\<close> is called on the
  handle. \<open>Response p r\<close>: the message \<open>r\<close> arrives on the host's end of channel \<open>p\<close>.
  \<open>ScopeExit x\<close>: the scope that holds the resource ends. \<open>Settle\<close>: the wait for the
  outcome in the \<open>finally\<close> block ends.
\<close>

datatype hevent =
    Receive lifecycle
  | CallSend val
  | Response port "val result"
  | ScopeExit exit
  | Settle

fun hstep :: "hevent \<Rightarrow> host \<Rightarrow> host option" where
  "hstep (Receive m) h =
     (let h' = (if listening h then onclose m h else h)
      in Some (if hphase h = Connecting then handshake m h' else h'))"
| "hstep (CallSend v) h = (if hphase h = Ready then Some (call_send v h) else None)"
| "hstep (Response p r) h =
     (if p \<in> fst ` set (waiting h) then Some (resume_send p r h) else None)"
| "hstep (ScopeExit x) h =
     (if hphase h = Ready then Some (begin_teardown x h)
      else if hphase h = Connecting then Some (h\<lparr>hphase := Abandoned x\<rparr>)
      else None)"
| "hstep Settle h =
     (case hphase h of
        Closing x \<Rightarrow> (case houtcome h of None \<Rightarrow> None | Some y \<Rightarrow> Some (end_teardown x y h))
      | _ \<Rightarrow> None)"

fun hrun :: "hevent list \<Rightarrow> host \<Rightarrow> host option" where
  "hrun [] h = Some h"
| "hrun (e # es) h = (case hstep e h of None \<Rightarrow> None | Some h' \<Rightarrow> hrun es h')"

subsection \<open>Worker and host together\<close>

text \<open>
  The two sides joined by their message ports. Each port delivers in the order of
  posting: \<open>wseen\<close> counts the messages of the host's \<open>outbox\<close> that reached the worker,
  \<open>hseen\<close> the messages of the worker's \<open>posted\<close> that reached the host. A \<open>send\<close> call
  listens with \<open>once\<close>, so it is resumed by the first message posted on its port.
\<close>

record system =
  wk :: worker
  hs :: host
  wseen :: nat
  hseen :: nat

definition system_start :: "val \<Rightarrow> system" where
  "system_start d = \<lparr>wk = worker_start, hs = host_start d, wseen = 0, hseen = 0\<rparr>"

datatype sevent =
    W event
  | H hevent
  | ToWorker
  | ToHost
  | Reply port

definition lift_w :: "system \<Rightarrow> worker option \<Rightarrow> system option" where
  "lift_w s x = (case x of None \<Rightarrow> None | Some w \<Rightarrow> Some (s\<lparr>wk := w\<rparr>))"

definition lift_h :: "system \<Rightarrow> host option \<Rightarrow> system option" where
  "lift_h s x = (case x of None \<Rightarrow> None | Some h \<Rightarrow> Some (s\<lparr>hs := h\<rparr>))"

fun sstep :: "sevent \<Rightarrow> system \<Rightarrow> system option" where
  "sstep (W (Deliver c)) s = None"
| "sstep (W e) s = lift_w s (step e (wk s))"
| "sstep (H (Receive m)) s = None"
| "sstep (H (Response p r)) s = None"
| "sstep (H e) s = lift_h s (hstep e (hs s))"
| "sstep ToWorker s =
     (if wseen s < length (outbox (hs s))
      then lift_w (s\<lparr>wseen := Suc (wseen s)\<rparr>) (step (Deliver (outbox (hs s) ! wseen s)) (wk s))
      else None)"
| "sstep ToHost s =
     (if hseen s < length (posted (wk s))
      then lift_h (s\<lparr>hseen := Suc (hseen s)\<rparr>) (hstep (Receive (posted (wk s) ! hseen s)) (hs s))
      else None)"
| "sstep (Reply p) s =
     (case map_of (replies (wk s)) p of
        None \<Rightarrow> None
      | Some r \<Rightarrow> lift_h s (hstep (Response p r) (hs s)))"

fun srun :: "sevent list \<Rightarrow> system \<Rightarrow> system option" where
  "srun [] s = Some s"
| "srun (e # es) s = (case sstep e s of None \<Rightarrow> None | Some s' \<Rightarrow> srun es s')"

section \<open>Predicates used in the statements\<close>

text \<open>The terminal message a worker in state \<open>w\<close> has posted, if any.\<close>

definition terminal :: "worker \<Rightarrow> lifecycle list" where
  "terminal w =
     (if finalized w then (case outcome w of None \<Rightarrow> [] | Some r \<Rightarrow> [Closed r]) else [])"

definition posted_ok :: "worker \<Rightarrow> bool" where
  "posted_ok w \<longleftrightarrow> posted w = Open # terminal w \<and> (finalized w \<longrightarrow> outcome w \<noteq> None)"

text \<open>No task body has completed: every body launched so far is still running.\<close>

definition bodies_pending :: "worker \<Rightarrow> bool" where
  "bodies_pending w \<longleftrightarrow> (\<forall>b\<in>set (bodies w). \<not> bdone b)"

text \<open>While no body has completed, only a \<open>close\<close> message can have settled the outcome.\<close>

definition unforced :: "worker \<Rightarrow> bool" where
  "unforced w \<longleftrightarrow>
     (bodies_pending w \<longrightarrow> outcome w = None \<or> outcome w = Some (Err worker_terminated))"

text \<open>
  The forced-termination scenario: handshake, \<open>init\<close>, the body starts and keeps running,
  the host's scope ends with \<open>x\<close>, the worker handles \<open>close\<close> and finalizes, the host
  receives the terminal message and finishes its teardown.
\<close>

definition forced_close :: "exit \<Rightarrow> sevent list" where
  "forced_close x =
     [ToHost, ToWorker, W Dispatch, H (ScopeExit x), ToWorker, W Dispatch, W Finalize,
      ToHost, H Settle]"




text \<open>
  Where a request can be in the worker: in the buffer of control messages, in the queue
  of a \<open>forEach\<close> loop, with a handler, or answered.
\<close>

definition in_flight ::
  "worker \<Rightarrow> control list \<times> (val \<times> port) list list \<times> port list \<times> (port \<times> val result) list"
  where
  "in_flight w = (controls w, map lqueue (loops w), map hresponse (handlers w), replies w)"

text \<open>A \<open>send\<close> that is dispatched before the body has called \<open>forEach\<close>.\<close>

definition early_send :: "event list" where
  "early_send = [Deliver (Init ''d''), Dispatch, Deliver (Send ''ping'' 0), Dispatch]"

text \<open>
  What a handler posts when it runs to its end, and what the handlers that have run to
  their end have posted, in the order in which they were spawned.
\<close>

definition result_of :: "handler_task \<Rightarrow> port \<times> val result" where
  "result_of h = (hresponse h, to_result (hfn h (hvalue h)))"

definition results_of :: "worker \<Rightarrow> (port \<times> val result) list" where
  "results_of w = map result_of (filter (\<lambda>h. hstatus h = Finished) (handlers w))"

text \<open>The first message the host received in a schedule of host events.\<close>

fun first_message :: "hevent list \<Rightarrow> lifecycle option" where
  "first_message [] = None"
| "first_message (Receive m # es) = Some m"
| "first_message (e # es) = first_message es"

text \<open>The acquisition ended without a handle: the assertion threw, or the scope ended.\<close>

definition gave_up :: "host \<Rightarrow> bool" where
  "gave_up h \<longleftrightarrow> (\<exists>e. hphase h = Refused e) \<or> (\<exists>x. hphase h = Abandoned x)"

text \<open>What teardown acts on: the phase, the messages posted, the listener.\<close>

definition teardown_view :: "host \<Rightarrow> hphase \<times> control list \<times> bool" where
  "teardown_view h = (hphase h, outbox h, listening h)"

text \<open>
  The host is in the \<open>finally\<close> block entered with exit \<open>x\<close>, having posted \<open>ob\<close>: either
  it still waits for the outcome with the listener registered, or the outcome is
  settled, the listener removed and the block done.
\<close>

definition closing :: "exit \<Rightarrow> control list \<Rightarrow> host \<Rightarrow> bool" where
  "closing x ob h \<longleftrightarrow>
     waiting h = [] \<and> outbox h = ob
     \<and> ((hphase h = Closing x \<and> listening h)
        \<or> (hphase h = Released x \<and> \<not> listening h \<and> houtcome h \<noteq> None))"

text \<open>The listener is registered until teardown has released it.\<close>

definition attached :: "host \<Rightarrow> bool" where
  "attached h \<longleftrightarrow> listening h \<or> (\<exists>x. hphase h = Released x)"

text \<open>The data of the \<open>init\<close> messages in a list of control messages, in order.\<close>

fun inits :: "control list \<Rightarrow> val list" where
  "inits [] = []"
| "inits (Init d # cs) = d # inits cs"
| "inits (c # cs) = inits cs"

text \<open>
  The three states of the worker-side runtime as the spec names them, read off the
  state of \<open>workerMain\<close>: finalized; else no body launched yet; else running.
\<close>

datatype wphase = AwaitingInit | Running | Finalized

definition wphase :: "worker \<Rightarrow> wphase" where
  "wphase w = (if finalized w then Finalized else if bodies w = [] then AwaitingInit else Running)"

fun rank :: "wphase \<Rightarrow> nat" where
  "rank AwaitingInit = 0"
| "rank Running = 1"
| "rank Finalized = 2"

text \<open>The control messages that arrive at the worker in a schedule, in order.\<close>

fun delivered :: "event list \<Rightarrow> control list" where
  "delivered [] = []"
| "delivered (Deliver c # es) = c # delivered es"
| "delivered (e # es) = delivered es"

text \<open>The state of the worker as the spec names it, with the data of the bodies launched.\<close>

definition launched :: "worker \<Rightarrow> wphase \<times> val list" where
  "launched w = (wphase w, map bdata (bodies w))"

text \<open>
  What the host has posted: nothing while it connects or after it gave up; otherwise
  \<open>init\<close> with the configured data first and no \<open>init\<close> after it.
\<close>

definition well_started :: "val \<Rightarrow> host \<Rightarrow> bool" where
  "well_started d h \<longleftrightarrow>
     hdata h = d \<and> (outbox h = [] \<longleftrightarrow> hphase h = Connecting \<or> gave_up h)
     \<and> (outbox h \<noteq> [] \<longrightarrow> hd (outbox h) = Init d \<and> inits (tl (outbox h)) = [])"

text \<open>
  The messages that reached the worker are those the host posted first, in order: some
  are handled already (\<open>pre\<close>), the others wait in \<open>controls\<close>; and the bodies launched
  are those of the \<open>init\<close> messages handled.
\<close>

definition delivered_ok :: "system \<Rightarrow> bool" where
  "delivered_ok s \<longleftrightarrow>
     wseen s \<le> length (outbox (hs s))
     \<and> (\<exists>pre. take (wseen s) (outbox (hs s)) = pre @ controls (wk s)
              \<and> map bdata (bodies (wk s)) = inits pre)"

text \<open>Before the first body is launched nothing else has happened in the worker.\<close>

definition unborn :: "worker \<Rightarrow> bool" where
  "unborn w \<longleftrightarrow> (bodies w = [] \<longrightarrow> outcome w = None \<and> loops w = [] \<and> handlers w = [])"

definition init_once :: "val \<Rightarrow> system \<Rightarrow> bool" where
  "init_once d s \<longleftrightarrow> well_started d (hs s) \<and> delivered_ok s \<and> unborn (wk s)"


text \<open>The response ports of the \<open>send\<close> messages in a list of control messages, in order.\<close>

fun ports :: "control list \<Rightarrow> port list" where
  "ports [] = []"
| "ports (Send v p # cs) = p # ports cs"
| "ports (c # cs) = ports cs"

text \<open>
  How often a port occurs downstream of the dispatch loop: in the queue of a subscribed
  \<open>forEach\<close> loop, as the response port of a running handler, and among the replies
  posted. \<open>dcount\<close> adds the three up.
\<close>

definition qcount :: "port \<Rightarrow> loop_task \<Rightarrow> nat" where
  "qcount p l = (if lalive l then count_list (map snd (lqueue l)) p else 0)"

definition hcount :: "port \<Rightarrow> handler_task \<Rightarrow> nat" where
  "hcount p h = (if hstatus h = Pending \<and> hresponse h = p then 1 else 0)"

definition dcount :: "port \<Rightarrow> worker \<Rightarrow> nat" where
  "dcount p w =
     sum_list (map (qcount p) (loops w)) + sum_list (map (hcount p) (handlers w))
       + count_list (map fst (replies w)) p"

text \<open>
  The ports of the host are used once: no two \<open>send\<close> messages posted share a port,
  every port used lies below \<open>next_port\<close>, a waiting call has posted its message, no call
  returned twice, and a call that returned waits no more.
\<close>

definition hports :: "host \<Rightarrow> bool" where
  "hports h \<longleftrightarrow>
     distinct (ports (outbox h)) \<and> (\<forall>p\<in>set (ports (outbox h)). p < next_port h)
     \<and> (\<forall>p v. (p, v) \<in> set (waiting h) \<longrightarrow> Send v p \<in> set (outbox h))
     \<and> distinct (map fst (returned h))
     \<and> (\<forall>p x. (p, x) \<in> set (returned h) \<longrightarrow>
           p < next_port h \<and> (\<forall>v. (p, v) \<notin> set (waiting h)))"

text \<open>
  How often a port occurs upstream of the dispatch loop: in the messages buffered in
  \<open>controls\<close> and in those posted by the host and not yet delivered.
\<close>

definition pcount :: "port \<Rightarrow> system \<Rightarrow> nat" where
  "pcount p s =
     count_list (ports (controls (wk s)) @ ports (drop (wseen s) (outbox (hs s)))) p"

definition busy :: "port \<Rightarrow> worker \<Rightarrow> nat" where
  "busy p w = (if dcount p w = 0 then 0 else 1)"

text \<open>
  A port is upstream at most once, and while it is upstream it is not downstream; a port
  the host has not allocated occurs nowhere.
\<close>

definition fresh_ports :: "system \<Rightarrow> bool" where
  "fresh_ports s \<longleftrightarrow>
     wseen s \<le> length (outbox (hs s))
     \<and> (\<forall>p. pcount p s + busy p (wk s) \<le> (if p < next_port (hs s) then 1 else 0))"

text \<open>Every port occurs at most once, upstream and downstream taken together.\<close>

definition one_each :: "system \<Rightarrow> bool" where
  "one_each s \<longleftrightarrow> (\<forall>p. pcount p s + dcount p (wk s) \<le> 1)"

text \<open>
  How one step changes the counts of a port: it stays upstream and gains nothing
  downstream; or the dispatch loop takes it from upstream, and with at most one
  \<open>forEach\<close> loop it appears downstream at most once more; or the host has just allocated
  it and posted it.
\<close>

definition moved :: "port \<Rightarrow> system \<Rightarrow> system \<Rightarrow> bool" where
  "moved p s s' \<longleftrightarrow>
     (pcount p s' = pcount p s \<and> dcount p (wk s') \<le> dcount p (wk s))
     \<or> (Suc (pcount p s') = pcount p s \<and> next_port (hs s') = next_port (hs s)
        \<and> (length (loops (wk s)) \<le> 1 \<longrightarrow> dcount p (wk s') \<le> Suc (dcount p (wk s))))
     \<or> (pcount p s' = Suc (pcount p s) \<and> p = next_port (hs s)
        \<and> next_port (hs s') = Suc p \<and> wk s' = wk s)"

text \<open>
  The requests the host has posted, as pairs of value and port, and the handler
  functions the bodies have given to \<open>forEach\<close> so far.
\<close>

definition sent_set :: "host \<Rightarrow> (val \<times> port) set" where
  "sent_set h = {(v, p). Send v p \<in> set (outbox h)}"

definition fns :: "worker \<Rightarrow> handler_fn set" where
  "fns w = set (map lfn (loops w))"

text \<open>
  Everything in the worker comes from the requests \<open>S\<close>: the buffered \<open>send\<close> messages,
  the queued requests and the handlers carry a value with the port it was sent with,
  every handler runs a function given to \<open>forEach\<close>, and every reply on a port is the
  result of such a function on the value sent with that port.
\<close>

definition sound :: "(val \<times> port) set \<Rightarrow> worker \<Rightarrow> bool" where
  "sound S w \<longleftrightarrow>
     (\<forall>v p. Send v p \<in> set (controls w) \<longrightarrow> (v, p) \<in> S)
     \<and> (\<forall>l m. l \<in> set (loops w) \<and> m \<in> set (lqueue l) \<longrightarrow> m \<in> S)
     \<and> (\<forall>h. h \<in> set (handlers w) \<longrightarrow> (hvalue h, hresponse h) \<in> S \<and> hfn h \<in> fns w)
     \<and> (\<forall>p r. (p, r) \<in> set (replies w) \<longrightarrow>
           (\<exists>v f. (v, p) \<in> S \<and> f \<in> fns w \<and> r = to_result (f v)))"

text \<open>
  The same for what the calls of the host returned: a call on port \<open>p\<close> returned only
  after a reply on \<open>p\<close>, and what it returned is what a handler function gives on the
  value the call sent.
\<close>

definition answers_ok :: "system \<Rightarrow> bool" where
  "answers_ok s \<longleftrightarrow>
     sound (sent_set (hs s)) (wk s)
     \<and> (\<forall>p x. (p, x) \<in> set (returned (hs s)) \<longrightarrow>
           p \<in> fst ` set (replies (wk s))
           \<and> (\<exists>v f. (v, p) \<in> sent_set (hs s) \<and> f \<in> fns (wk s) \<and> x = f v))"

text \<open>The port \<open>p\<close> was allocated and is nowhere any more, upstream or downstream.\<close>

definition gone :: "port \<Rightarrow> system \<Rightarrow> bool" where
  "gone p s \<longleftrightarrow>
     pcount p s = 0 \<and> dcount p (wk s) = 0 \<and> p < next_port (hs s)
     \<and> wseen s \<le> length (outbox (hs s))"

text \<open>
  The host is in its teardown or past it. The call of \<open>send\<close> on port \<open>p\<close> with value \<open>v\<close>
  is still suspended while the handle is provided, unless the teardown has begun.
\<close>

definition in_teardown :: "host \<Rightarrow> bool" where
  "in_teardown h \<longleftrightarrow> (\<exists>x. hphase h = Closing x \<or> hphase h = Released x)"

definition call_waits :: "port \<Rightarrow> val \<Rightarrow> host \<Rightarrow> bool" where
  "call_waits p v h \<longleftrightarrow> ((p, v) \<in> set (waiting h) \<and> hphase h = Ready) \<or> in_teardown h"

definition calls_live :: "host \<Rightarrow> bool" where
  "calls_live h \<longleftrightarrow> (waiting h \<noteq> [] \<longrightarrow> hphase h = Ready)"

text \<open>What the worker replied on the response ports, and what the calls of \<open>send\<close> returned.\<close>

definition answers :: "system \<Rightarrow> (port \<times> val result) list" where
  "answers s = replies (wk s)"

definition results :: "system \<Rightarrow> (port \<times> (err + val)) list" where
  "results s = returned (hs s)"

text \<open>
  A body that iterates the requests twice at the same time, with two handler functions,
  and one \<open>send\<close>.
\<close>

definition double_for_each :: "sevent list" where
  "double_for_each =
     [ToHost, ToWorker, W Dispatch,
      W (BodyForEach 0 (\<lambda>v. Inr ''a'')), W (BodyForEach 0 (\<lambda>v. Inr ''b'')),
      H (CallSend ''ping''), ToWorker, W Dispatch,
      W (LoopTake 0), W (LoopTake 1), W (HandlerRun 0), W (HandlerRun 1)]"

text \<open>
  The round trip of one \<open>send(v)\<close>: handshake, \<open>init\<close>, the body calls \<open>forEach(f)\<close>, the
  host sends, the worker dispatches the request, its handler runs, the reply resumes
  the call.
\<close>

definition round_trip :: "val \<Rightarrow> handler_fn \<Rightarrow> sevent list" where
  "round_trip v f =
     [ToHost, ToWorker, W Dispatch, W (BodyForEach 0 f), H (CallSend v), ToWorker,
      W Dispatch, W (LoopTake 0), W (HandlerRun 0), Reply 0]"

text \<open>A \<open>send\<close> that reaches the worker whose body has not called \<open>forEach\<close>.\<close>

definition unheard_send :: "sevent list" where
  "unheard_send = [ToHost, ToWorker, H (CallSend ''ping''), ToWorker, W Dispatch]"

section \<open>Properties\<close>

subsection \<open>Basic facts\<close>

lemmas worker_ops =
  resolve_def sent_send_def body_end_def handler_run_def loop_take_def
  finalize_def body_running_def Let_def

lemma run_append:
  "run (es @ es') w = (case run es w of None \<Rightarrow> None | Some w' \<Rightarrow> run es' w')"
  by (induction es arbitrary: w) (auto split: option.splits)

lemma dispatch_keeps:
  "posted (dispatch c w) = posted w"
  "finalized (dispatch c w) = finalized w"
  "replies (dispatch c w) = replies w"
  "handlers (dispatch c w) = handlers w"
  "controls (dispatch c w) = controls w"
  by (cases c; simp add: resolve_def sent_send_def)+

lemma dispatch_outcome:
  "outcome (dispatch c w) =
     (if c = Close \<and> outcome w = None then Some (Err worker_terminated) else outcome w)"
  by (cases c) (simp_all add: resolve_def sent_send_def)

lemma step_outcome_kept:
  "step e w = Some w' \<Longrightarrow> outcome w = Some r \<Longrightarrow> outcome w' = Some r"
  by (cases e)
    (auto simp: worker_ops dispatch_keeps dispatch_outcome
          split: if_splits list.splits option.splits)

lemma run_outcome_kept:
  "run es w = Some w' \<Longrightarrow> outcome w = Some r \<Longrightarrow> outcome w' = Some r"
  by (induction es arbitrary: w) (auto split: option.splits dest: step_outcome_kept)

lemma step_finalized:
  "step e w = Some w' \<Longrightarrow> finalized w \<Longrightarrow> finalized w' \<and> posted w' = posted w"
  by (cases e)
    (auto simp: worker_ops dispatch_keeps split: if_splits list.splits option.splits)


lemma step_posted_ok: "step e w = Some w' \<Longrightarrow> posted_ok w \<Longrightarrow> posted_ok w'"
  by (cases e)
    (auto simp: worker_ops dispatch_keeps dispatch_outcome posted_ok_def terminal_def
          split: if_splits list.splits option.splits)

lemma run_posted_ok: "run es w = Some w' \<Longrightarrow> posted_ok w \<Longrightarrow> posted_ok w'"
  by (induction es arbitrary: w) (auto split: option.splits dest: step_posted_ok)

lemma start_posted_ok: "posted_ok worker_start"
  by (simp add: posted_ok_def terminal_def worker_start_def)

lemma posted_ok_cases:
  "posted_ok w \<Longrightarrow>
     (\<not> finalized w \<and> posted w = [Open])
     \<or> (\<exists>r. finalized w \<and> outcome w = Some r \<and> posted w = [Open, Closed r])"
  unfolding posted_ok_def terminal_def by (cases "outcome w") auto

subsection \<open>One terminal outcome\<close>




subsection \<open>The order of the worker's messages\<close>






subsection \<open>Forced termination\<close>

lemma dispatch_bodies_pending:
  "bodies_pending (dispatch c w) = bodies_pending w"
  by (cases c) (auto simp: bodies_pending_def resolve_def sent_send_def)

lemma controls_bodies_pending:
  "bodies_pending (w\<lparr>controls := cs\<rparr>) = bodies_pending w"
  by (simp add: bodies_pending_def)

lemma body_end_not_pending:
  "i < length (bodies w) \<Longrightarrow> \<not> bodies_pending (body_end i r w)"
  by (auto simp: bodies_pending_def worker_ops set_update_memI intro!: bexI[of _ "(bodies w ! i)\<lparr>bdone := True\<rparr>"])

lemma step_unforced: "step e w = Some w' \<Longrightarrow> unforced w \<Longrightarrow> unforced w'"
proof (cases e)
  case Dispatch
  assume "step e w = Some w'" "unforced w"
  with Dispatch show ?thesis
    by (auto simp: unforced_def dispatch_bodies_pending dispatch_outcome
                   controls_bodies_pending
             split: if_splits list.splits)
next
  case (BodyReturn i v)
  assume "step e w = Some w'" "unforced w"
  with BodyReturn show ?thesis
    using body_end_not_pending[of i w "Ok v"]
    by (auto simp: unforced_def body_running_def split: if_splits)
next
  case (BodyThrow i x)
  assume "step e w = Some w'" "unforced w"
  with BodyThrow show ?thesis
    using body_end_not_pending[of i w "Err x"]
    by (auto simp: unforced_def body_running_def split: if_splits)
qed (auto simp: unforced_def bodies_pending_def worker_ops split: if_splits option.splits)

lemma run_unforced: "run es w = Some w' \<Longrightarrow> unforced w \<Longrightarrow> unforced w'"
  by (induction es arbitrary: w) (auto split: option.splits dest: step_unforced)

lemma start_unforced: "unforced worker_start"
  by (simp add: unforced_def worker_start_def)

lemmas host_ops =
  hsettle_def handshake_def is_open_def call_send_def resume_send_def begin_teardown_def
  end_teardown_def of_result_def

lemmas system_ops = lift_w_def lift_h_def system_start_def worker_start_def host_start_def

lemma forced_close_run:
  "\<exists>s. srun (forced_close x) (system_start d) = Some s
     \<and> bodies (wk s) = [\<lparr>bdata = d, bdone = False\<rparr>]
     \<and> posted (wk s) = [Open, Closed (Err worker_terminated)]
     \<and> houtcome (hs s) = Some (Inl worker_terminated)
     \<and> hphase (hs s) = Released x \<and> \<not> listening (hs s)"
  by (simp add: forced_close_def system_ops worker_ops host_ops)

text \<open>
  C5. Take a reachable, not finalized worker state in which no body has completed and
  the next control message is \<open>close\<close>. The dispatch loop handles it and the outcome is
  then \<open>Err "worker terminated"\<close>. The worker does not wait for the body: it can
  finalize at once, posting that failure. Whatever happens afterwards (the body
  returning or throwing included), the outcome stays that failure and is the one a
  finalizing worker posts. In the scenario \<open>forced_close\<close>, where the host's scope ends
  with any \<open>x\<close> while the body runs, the worker posts that failure and the host's future
  is rejected with it.
\<close>

theorem close_before_completion_terminates:
  assumes "run es worker_start = Some w" and "\<not> finalized w"
    and "controls w = Close # cs" and "bodies_pending w"
  shows "\<exists>w'. step Dispatch w = Some w' \<and> outcome w' = Some (Err worker_terminated)
       \<and> (\<exists>wf. step Finalize w' = Some wf \<and> posted wf = [Open, Closed (Err worker_terminated)])
       \<and> (\<forall>es' w''. run es' w' = Some w'' \<longrightarrow>
             outcome w'' = Some (Err worker_terminated)
             \<and> (finalized w'' \<longrightarrow> posted w'' = [Open, Closed (Err worker_terminated)]))
       \<and> (\<exists>s. srun (forced_close x) (system_start d) = Some s
             \<and> bodies (wk s) = [\<lparr>bdata = d, bdone = False\<rparr>]
             \<and> posted (wk s) = [Open, Closed (Err worker_terminated)]
             \<and> houtcome (hs s) = Some (Inl worker_terminated)
             \<and> hphase (hs s) = Released x)"
proof -
  define w' where "w' = dispatch Close (w\<lparr>controls := cs\<rparr>)"
  have s: "step Dispatch w = Some w'"
    using assms(2,3) by (simp add: w'_def)
  have u: "unforced w"
    using assms(1) run_unforced start_unforced by blast
  have o: "outcome w' = Some (Err worker_terminated)"
    using u assms(4) by (auto simp: w'_def unforced_def resolve_def)
  have r: "run (es @ [Dispatch]) worker_start = Some w'"
    using assms(1) s by (simp add: run_append)
  have ok: "posted_ok w'"
    using r run_posted_ok start_posted_ok by blast
  have nf: "\<not> finalized w'"
    using assms(2) by (simp add: w'_def resolve_def)
  have f: "\<exists>wf. step Finalize w' = Some wf \<and> posted wf = [Open, Closed (Err worker_terminated)]"
    using posted_ok_cases[OF ok] nf o by (auto simp: finalize_def)
  have l: "outcome w'' = Some (Err worker_terminated)
             \<and> (finalized w'' \<longrightarrow> posted w'' = [Open, Closed (Err worker_terminated)])"
    if "run es' w' = Some w''" for es' w''
  proof -
    have o'': "outcome w'' = Some (Err worker_terminated)"
      using that o run_outcome_kept by blast
    have "posted_ok w''"
      using that ok run_posted_ok by blast
    from posted_ok_cases[OF this] o'' show ?thesis by auto
  qed
  from s o f l forced_close_run[of x d] show ?thesis by blast
qed

text \<open>A body is running and \<open>close\<close> is the next control message.\<close>

theorem close_before_completion_terminates_witness:
  "\<exists>w w'. run [Deliver (Init ''d''), Dispatch, Deliver Close] worker_start = Some w
     \<and> \<not> finalized w \<and> controls w = [Close] \<and> bodies_pending w
     \<and> step Dispatch w = Some w' \<and> outcome w' = Some (Err worker_terminated)"
proof -
  obtain w where
    r: "run [Deliver (Init ''d''), Dispatch, Deliver Close] worker_start = Some w"
    and f: "\<not> finalized w" and c: "controls w = [Close]" and b: "bodies_pending w"
    by (simp add: worker_start_def worker_ops bodies_pending_def)
  from close_before_completion_terminates[OF r f c b] r f c b show ?thesis by blast
qed


subsection \<open>Request handlers\<close>

lemma step_alive:
  assumes "step e w = Some w'" and "\<forall>l\<in>set (loops w). lalive l"
  shows "\<forall>l\<in>set (loops w'). lalive l"
proof (cases e)
  case Dispatch
  with assms(1) obtain c cs where "w' = dispatch c (w\<lparr>controls := cs\<rparr>)"
    by (auto split: list.splits)
  with assms(2) show ?thesis
    by (cases c) (auto simp: resolve_def sent_send_def enqueue_def)
next
  case (LoopTake j)
  with assms(1) have "loops w' = (loops w)[j := (loops w ! j)\<lparr>lqueue := tl (lqueue (loops w ! j))\<rparr>]"
    and j: "j < length (loops w)"
    by (auto simp: loop_take_def Let_def split: if_splits)
  with assms(2) show ?thesis
    by (auto dest!: set_update_subset_insert[THEN subsetD])
qed (use assms in \<open>auto simp: worker_ops split: if_splits option.splits\<close>)

lemma run_alive:
  "run es w = Some w' \<Longrightarrow> \<forall>l\<in>set (loops w). lalive l \<Longrightarrow> \<forall>l\<in>set (loops w'). lalive l"
proof (induction es arbitrary: w)
  case Nil
  then show ?case by simp
next
  case (Cons e es)
  from Cons.prems(1) obtain w1 where s: "step e w = Some w1" and r: "run es w1 = Some w'"
    by (auto split: option.splits)
  from Cons.IH[OF r step_alive[OF s Cons.prems(2)]] show ?case .
qed

lemma count_finished_update:
  assumes "k < length ts" and "hstatus (ts ! k) = Pending"
  shows "count_list (map result_of (filter (\<lambda>h. hstatus h = Finished)
            (ts[k := (ts ! k)\<lparr>hstatus := Finished\<rparr>]))) x
       = count_list (map result_of (filter (\<lambda>h. hstatus h = Finished) ts)) x
         + (if result_of (ts ! k) = x then 1 else 0)"
  using assms
proof (induction ts arbitrary: k)
  case Nil
  then show ?case by simp
next
  case (Cons h ts)
  show ?case
  proof (cases k)
    case 0
    with Cons.prems show ?thesis by (simp add: result_of_def)
  next
    case (Suc n)
    with Cons.prems Cons.IH[of n] show ?thesis by simp
  qed
qed

lemma step_results:
  assumes "step e w = Some w'"
    and "\<forall>x. count_list (replies w) x = count_list (results_of w) x"
  shows "\<forall>x. count_list (replies w') x = count_list (results_of w') x"
proof (cases e)
  case Dispatch
  with assms(1) obtain c cs where "w' = dispatch c (w\<lparr>controls := cs\<rparr>)"
    by (auto split: list.splits)
  then have "replies w' = replies w" "handlers w' = handlers w"
    by (simp_all add: dispatch_keeps)
  with assms(2) show ?thesis by (simp add: results_of_def)
next
  case (HandlerRun k)
  with assms(1) have k: "k < length (handlers w)" "hstatus (handlers w ! k) = Pending"
    and w': "w' = handler_run k w"
    by (auto split: if_splits)
  have "replies w' = replies w @ [result_of (handlers w ! k)]"
    "handlers w' = (handlers w)[k := (handlers w ! k)\<lparr>hstatus := Finished\<rparr>]"
    by (simp_all add: w' handler_run_def Let_def result_of_def)
  with assms(2) count_finished_update[OF k] show ?thesis
    by (simp add: results_of_def)
qed (use assms in \<open>auto simp: worker_ops results_of_def split: if_splits option.splits\<close>)

lemma run_results:
  "run es w = Some w' \<Longrightarrow> \<forall>x. count_list (replies w) x = count_list (results_of w) x
   \<Longrightarrow> \<forall>x. count_list (replies w') x = count_list (results_of w') x"
proof (induction es arbitrary: w)
  case Nil
  then show ?case by simp
next
  case (Cons e es)
  from Cons.prems(1) obtain w1 where s: "step e w = Some w1" and r: "run es w1 = Some w'"
    by (auto split: option.splits)
  from Cons.IH[OF r step_results[OF s Cons.prems(2)]] show ?case .
qed

lemma step_finished_stays:
  assumes "step e w = Some w'" and "k < length (handlers w)"
    and "hstatus (handlers w ! k) = Finished"
  shows "k < length (handlers w') \<and> handlers w' ! k = handlers w ! k \<and> e \<noteq> HandlerRun k"
  using assms
  by (cases e)
    (auto simp: worker_ops dispatch_keeps nth_append nth_list_update
          split: if_splits list.splits option.splits)

lemma run_finished_stays:
  "run es w = Some w' \<Longrightarrow> k < length (handlers w) \<Longrightarrow> hstatus (handlers w ! k) = Finished
   \<Longrightarrow> k < length (handlers w') \<and> handlers w' ! k = handlers w ! k \<and> HandlerRun k \<notin> set es"
proof (induction es arbitrary: w)
  case Nil
  then show ?case by simp
next
  case (Cons e es)
  from Cons.prems(1) obtain w1 where s: "step e w = Some w1" and r: "run es w1 = Some w'"
    by (auto split: option.splits)
  from step_finished_stays[OF s Cons.prems(2,3)]
  have a: "k < length (handlers w1)" "handlers w1 ! k = handlers w ! k" "e \<noteq> HandlerRun k"
    by auto
  with Cons.prems(3) have "hstatus (handlers w1 ! k) = Finished" by simp
  from Cons.IH[OF r a(1) this] a show ?case by auto
qed

text \<open>
  C2, as the spec states it, fails: not every dispatched \<open>send\<close> gets a result. In the
  schedule \<open>early_send\<close> the request on port 0 is dispatched before the body has called
  \<open>forEach\<close>. After the dispatch it is nowhere: not in the buffer, in no queue, with no
  handler, and no result is posted. A \<open>forEach\<close> loop started afterwards finds its queue
  empty and has nothing to take.
\<close>

theorem send_without_loop_gets_no_result:
  "map_option in_flight (run early_send worker_start) = Some ([], [], [], [])
   \<and> map_option in_flight (run (early_send @ [BodyForEach 0 (\<lambda>v. Inr ''pong'')]) worker_start)
       = Some ([], [[]], [], [])
   \<and> run (early_send @ [BodyForEach 0 (\<lambda>v. Inr ''pong''), LoopTake 0]) worker_start = None"
  by (simp add: early_send_def in_flight_def worker_start_def worker_ops enqueue_def)

text \<open>
  C2, amended. In every state the worker can reach:
  the results posted on response ports are, up to their order, exactly the results of
  the handlers that have run to their end, one for each;
  dispatching \<open>send\<close> with value \<open>v\<close> and port \<open>p\<close> puts the request in the queue of every
  \<open>forEach\<close> loop there is, and does nothing else;
  a loop whose queue starts with a request can take it, which spawns one handler for it,
  with the function of the loop, the value and the port of the request;
  a running handler \<open>h\<close> can run to its end, which posts one result on its own response
  port and nothing else: \<open>Err e\<close> when the function threw \<open>e\<close>, \<open>Ok y\<close> when it returned \<open>y\<close>.
  The outcome of the worker, its messages to the host, the bodies, the loops and every
  other handler are as before. From then on the handler is finished and never runs
  again, and every other running handler can still run to its end and post its own
  result;
  a finished handler cannot run.
\<close>

theorem handler_posts_once:
  assumes "run es worker_start = Some w"
  shows "(\<forall>x. count_list (replies w) x = count_list (results_of w) x)
       \<and> (\<forall>v p cs. controls w = Send v p # cs \<longrightarrow>
            (\<exists>w'. step Dispatch w = Some w'
               \<and> map lqueue (loops w') = map (\<lambda>l. lqueue l @ [(v, p)]) (loops w)
               \<and> handlers w' = handlers w \<and> replies w' = replies w
               \<and> outcome w' = outcome w))
       \<and> (\<forall>j v p q. j < length (loops w) \<and> lqueue (loops w ! j) = (v, p) # q \<longrightarrow>
            (\<exists>w'. step (LoopTake j) w = Some w'
               \<and> handlers w' = handlers w @
                    [\<lparr>howner = lowner (loops w ! j), hfn = lfn (loops w ! j), hvalue = v,
                      hresponse = p, hstatus = Pending\<rparr>]
               \<and> lqueue (loops w' ! j) = q \<and> replies w' = replies w))
       \<and> (\<forall>k h. k < length (handlers w) \<and> handlers w ! k = h \<and> hstatus h = Pending \<longrightarrow>
            (\<exists>w'. step (HandlerRun k) w = Some w'
               \<and> replies w' = replies w @ [(hresponse h, to_result (hfn h (hvalue h)))]
               \<and> (\<forall>e. hfn h (hvalue h) = Inl e \<longrightarrow> to_result (hfn h (hvalue h)) = Err e)
               \<and> (\<forall>y. hfn h (hvalue h) = Inr y \<longrightarrow> to_result (hfn h (hvalue h)) = Ok y)
               \<and> outcome w' = outcome w \<and> posted w' = posted w \<and> bodies w' = bodies w
               \<and> loops w' = loops w
               \<and> handlers w' = (handlers w)[k := h\<lparr>hstatus := Finished\<rparr>]
               \<and> (\<forall>es' w''. run es' w' = Some w'' \<longrightarrow>
                     handlers w'' ! k = h\<lparr>hstatus := Finished\<rparr> \<and> HandlerRun k \<notin> set es')
               \<and> (\<forall>k'. k' \<noteq> k \<and> k' < length (handlers w)
                       \<and> hstatus (handlers w ! k') = Pending \<longrightarrow>
                     (\<exists>w''. step (HandlerRun k') w' = Some w''
                        \<and> replies w'' = replies w' @ [result_of (handlers w ! k')]))))
       \<and> (\<forall>k. k < length (handlers w) \<and> hstatus (handlers w ! k) = Finished \<longrightarrow>
            step (HandlerRun k) w = None)"
proof -
  have al: "\<forall>l\<in>set (loops w). lalive l"
    using run_alive[OF assms] by (simp add: worker_start_def)
  have a: "\<forall>x. count_list (replies w) x = count_list (results_of w) x"
    using run_results[OF assms] by (simp add: worker_start_def results_of_def)
  have b: "\<exists>w'. step Dispatch w = Some w'
               \<and> map lqueue (loops w') = map (\<lambda>l. lqueue l @ [(v, p)]) (loops w)
               \<and> handlers w' = handlers w \<and> replies w' = replies w
               \<and> outcome w' = outcome w"
    if "controls w = Send v p # cs" for v p cs
    using that al by (simp add: sent_send_def enqueue_def)
  have c: "\<exists>w'. step (LoopTake j) w = Some w'
               \<and> handlers w' = handlers w @
                    [\<lparr>howner = lowner (loops w ! j), hfn = lfn (loops w ! j), hvalue = v,
                      hresponse = p, hstatus = Pending\<rparr>]
               \<and> lqueue (loops w' ! j) = q \<and> replies w' = replies w"
    if "j < length (loops w)" and "lqueue (loops w ! j) = (v, p) # q" for j v p q
    using that al by (simp add: loop_take_def Let_def)
  have d: "\<exists>w'. step (HandlerRun k) w = Some w'
               \<and> replies w' = replies w @ [(hresponse h, to_result (hfn h (hvalue h)))]
               \<and> (\<forall>e. hfn h (hvalue h) = Inl e \<longrightarrow> to_result (hfn h (hvalue h)) = Err e)
               \<and> (\<forall>y. hfn h (hvalue h) = Inr y \<longrightarrow> to_result (hfn h (hvalue h)) = Ok y)
               \<and> outcome w' = outcome w \<and> posted w' = posted w \<and> bodies w' = bodies w
               \<and> loops w' = loops w
               \<and> handlers w' = (handlers w)[k := h\<lparr>hstatus := Finished\<rparr>]
               \<and> (\<forall>es' w''. run es' w' = Some w'' \<longrightarrow>
                     handlers w'' ! k = h\<lparr>hstatus := Finished\<rparr> \<and> HandlerRun k \<notin> set es')
               \<and> (\<forall>k'. k' \<noteq> k \<and> k' < length (handlers w)
                       \<and> hstatus (handlers w ! k') = Pending \<longrightarrow>
                     (\<exists>w''. step (HandlerRun k') w' = Some w''
                        \<and> replies w'' = replies w' @ [result_of (handlers w ! k')]))"
    if k: "k < length (handlers w)" and h: "handlers w ! k = h" and p: "hstatus h = Pending"
    for k h
  proof -
    define w' where "w' = handler_run k w"
    have s: "step (HandlerRun k) w = Some w'"
      using that by (simp add: w'_def)
    have f: "replies w' = replies w @ [(hresponse h, to_result (hfn h (hvalue h)))]"
      "outcome w' = outcome w" "posted w' = posted w" "bodies w' = bodies w"
      "loops w' = loops w" "handlers w' = (handlers w)[k := h\<lparr>hstatus := Finished\<rparr>]"
      using h by (simp_all add: w'_def handler_run_def Let_def)
    have t: "(\<forall>e. hfn h (hvalue h) = Inl e \<longrightarrow> to_result (hfn h (hvalue h)) = Err e)
       \<and> (\<forall>y. hfn h (hvalue h) = Inr y \<longrightarrow> to_result (hfn h (hvalue h)) = Ok y)"
      by (simp add: to_result_def)
    have k': "k < length (handlers w')" "handlers w' ! k = h\<lparr>hstatus := Finished\<rparr>"
      using k by (simp_all add: f(6))
    then have fin: "hstatus (handlers w' ! k) = Finished" by simp
    have l: "handlers w'' ! k = h\<lparr>hstatus := Finished\<rparr> \<and> HandlerRun k \<notin> set es'"
      if "run es' w' = Some w''" for es' w''
      using run_finished_stays[OF that k'(1) fin] k'(2) by simp
    have m: "\<exists>w''. step (HandlerRun k') w' = Some w''
                \<and> replies w'' = replies w' @ [result_of (handlers w ! k')]"
      if "k' \<noteq> k" and "k' < length (handlers w)" and "hstatus (handlers w ! k') = Pending"
      for k'
      using that by (simp add: f(6) handler_run_def Let_def result_of_def)
    from s f t l m show ?thesis by blast
  qed
  have e: "\<forall>k. k < length (handlers w) \<and> hstatus (handlers w ! k) = Finished \<longrightarrow>
            step (HandlerRun k) w = None"
    by simp
  from a b c d e show ?thesis by blast
qed

text \<open>A handler that throws: the failure is posted on port 7, the outcome stays open.\<close>

theorem handler_posts_once_witness:
  "\<exists>w w'. run [Deliver (Init ''d''), Dispatch, BodyForEach 0 (\<lambda>v. Inl ''boom''),
               Deliver (Send ''ping'' 7), Dispatch, LoopTake 0] worker_start = Some w
     \<and> map hstatus (handlers w) = [Pending]
     \<and> step (HandlerRun 0) w = Some w'
     \<and> replies w' = [(7, Err ''boom'')] \<and> outcome w' = None
     \<and> map hstatus (handlers w') = [Finished]"
proof -
  obtain w where
    r: "run [Deliver (Init ''d''), Dispatch, BodyForEach 0 (\<lambda>v. Inl ''boom''),
             Deliver (Send ''ping'' 7), Dispatch, LoopTake 0] worker_start = Some w"
    and k: "0 < length (handlers w)"
    and h: "handlers w ! 0 = \<lparr>howner = 0, hfn = (\<lambda>v. Inl ''boom''), hvalue = ''ping'',
                              hresponse = 7, hstatus = Pending\<rparr>"
    and hl: "handlers w = [\<lparr>howner = 0, hfn = (\<lambda>v. Inl ''boom''), hvalue = ''ping'',
                              hresponse = 7, hstatus = Pending\<rparr>]"
    and o: "outcome w = None" and p: "replies w = []"
    by (simp add: worker_start_def worker_ops enqueue_def)
  from handler_posts_once[OF r] k h hl o p r show ?thesis
    by (auto simp: to_result_def)
qed

subsection \<open>The host: handshake\<close>

lemma hrun_append:
  "hrun (es @ es') h = (case hrun es h of None \<Rightarrow> None | Some h' \<Rightarrow> hrun es' h')"
  by (induction es arbitrary: h) (auto split: option.splits)

lemma onclose_keeps:
  "hphase (onclose m h) = hphase h"
  "outbox (onclose m h) = outbox h"
  "listening (onclose m h) = listening h"
  "waiting (onclose m h) = waiting h"
  "returned (onclose m h) = returned h"
  "next_port (onclose m h) = next_port h"
  "hdata (onclose m h) = hdata h"
  by (induction m h rule: onclose.induct; simp add: hsettle_def)+

lemma onclose_settled: "houtcome h \<noteq> None \<Longrightarrow> houtcome (onclose m h) \<noteq> None"
  by (induction m h rule: onclose.induct) (simp_all add: hsettle_def)

lemma settled_returns: "\<exists>r. settled y = Inr r"
  by (cases y) simp_all

lemma hstep_gave_up:
  "hstep e h = Some h' \<Longrightarrow> gave_up h \<Longrightarrow> outbox h = [] \<Longrightarrow>
     hphase h' = hphase h \<and> outbox h' = []"
  by (cases e)
    (auto simp: gave_up_def resume_send_def onclose_keeps Let_def split: if_splits)

lemma hstep_outbox_grows:
  "hstep e h = Some h' \<Longrightarrow> \<exists>cs. outbox h' = outbox h @ cs"
proof (cases e)
  case (Receive m)
  assume "hstep e h = Some h'"
  with Receive show ?thesis
    by (auto simp: handshake_def onclose_keeps Let_def split: if_splits)
next
  case Settle
  assume "hstep e h = Some h'"
  with Settle show ?thesis
    by (cases "hphase h"; cases "houtcome h")
       (auto simp: end_teardown_def split: sum.splits)
qed (auto simp: call_send_def resume_send_def begin_teardown_def split: if_splits)

lemma hrun_gave_up:
  "hrun es h = Some h' \<Longrightarrow> gave_up h \<Longrightarrow> outbox h = [] \<Longrightarrow>
     hphase h' = hphase h \<and> outbox h' = []"
proof (induction es arbitrary: h)
  case Nil
  then show ?case by simp
next
  case (Cons e es)
  from Cons.prems(1) obtain h1 where s: "hstep e h = Some h1" and r: "hrun es h1 = Some h'"
    by (auto split: option.splits)
  from hstep_gave_up[OF s Cons.prems(2,3)] have a: "hphase h1 = hphase h" "outbox h1 = []"
    by auto
  then have "gave_up h1" using Cons.prems(2) by (simp add: gave_up_def)
  from Cons.IH[OF r this a(2)] a show ?case by simp
qed

lemma hrun_outbox_grows:
  "hrun es h = Some h' \<Longrightarrow> \<exists>cs. outbox h' = outbox h @ cs"
proof (induction es arbitrary: h)
  case Nil
  then show ?case by simp
next
  case (Cons e es)
  from Cons.prems(1) obtain h1 where s: "hstep e h = Some h1" and r: "hrun es h1 = Some h'"
    by (auto split: option.splits)
  from hstep_outbox_grows[OF s] Cons.IH[OF r] show ?case by auto
qed

lemma hrun_connecting:
  assumes "hrun es h = Some h'" and "hphase h = Connecting" and "outbox h = []"
    and "waiting h = []"
  shows "(first_message es = None \<longrightarrow> outbox h' = [] \<and> (hphase h' = Connecting \<or> gave_up h'))
       \<and> (\<forall>m. first_message es = Some m \<and> \<not> is_open m \<longrightarrow> outbox h' = [] \<and> gave_up h')
       \<and> (outbox h' \<noteq> [] \<longrightarrow> (\<exists>m. first_message es = Some m \<and> is_open m) \<and> hd (outbox h') = Init (hdata h))
       \<and> (\<not> gave_up h' \<and> hphase h' \<noteq> Connecting \<longrightarrow>
             (\<exists>m. first_message es = Some m \<and> is_open m) \<and> hd (outbox h') = Init (hdata h))"
  using assms
proof (induction es arbitrary: h)
  case Nil
  then show ?case by (simp add: gave_up_def)
next
  case (Cons e es)
  from Cons.prems(1) obtain h1 where s: "hstep e h = Some h1" and r: "hrun es h1 = Some h'"
    by (auto split: option.splits)
  show ?case
  proof (cases e)
    case (Receive m)
    show ?thesis
    proof (cases "is_open m")
      case True
      with s Receive Cons.prems have "outbox h1 = [Init (hdata h)]" "hphase h1 = Ready"
        by (auto simp: host_ops onclose_keeps Let_def)
      moreover from hrun_outbox_grows[OF r] obtain cs where "outbox h' = outbox h1 @ cs" ..
      ultimately have "hd (outbox h') = Init (hdata h)" "outbox h' \<noteq> []" by simp_all
      with True Receive show ?thesis by simp
    next
      case False
      with s Receive Cons.prems have "outbox h1 = []" "gave_up h1"
        by (auto simp: host_ops onclose_keeps Let_def gave_up_def)
      from hrun_gave_up[OF r this(2,1)] \<open>gave_up h1\<close> have "outbox h' = []" "gave_up h'"
        by (auto simp: gave_up_def)
      with False Receive show ?thesis by simp
    qed
  next
    case (ScopeExit x)
    with s Cons.prems have "outbox h1 = []" "gave_up h1"
      by (auto simp: gave_up_def)
    from hrun_gave_up[OF r this(2,1)] \<open>gave_up h1\<close> have "outbox h' = []" "gave_up h'"
      by (auto simp: gave_up_def)
    with ScopeExit show ?thesis by simp
  qed (use s Cons.prems in \<open>auto split: if_splits\<close>)
qed

text \<open>
  C7. The resource starts suspended, waiting for the first message. In every schedule of
  host events: while no message has arrived the host has posted nothing, and it is
  still connecting unless its scope has ended. If the first message is not of type
  \<open>open\<close> the host has posted nothing and has given up; received in the starting state,
  such a message makes the assertion throw its error. \<open>open\<close> received in the starting state
  posts \<open>init\<close> with the configured data and provides the handle. Whenever the host has
  posted anything, or holds a handle or is past it, the first message was \<open>open\<close> and
  the first message posted is \<open>init\<close> with the configured data.
\<close>

theorem handshake_before_init:
  assumes "hrun es (host_start d) = Some h"
  shows "(first_message es = None \<longrightarrow> outbox h = [] \<and> (hphase h = Connecting \<or> gave_up h))
       \<and> (\<forall>m. first_message es = Some m \<and> \<not> is_open m \<longrightarrow> outbox h = [] \<and> gave_up h)
       \<and> (\<forall>m. \<not> is_open m \<longrightarrow>
             map_option hphase (hstep (Receive m) (host_start d)) = Some (Refused (not_open m)))
       \<and> map_option teardown_view (hstep (Receive Open) (host_start d))
             = Some (Ready, [Init d], True)
       \<and> (outbox h \<noteq> [] \<longrightarrow> (\<exists>m. first_message es = Some m \<and> is_open m) \<and> hd (outbox h) = Init d)
       \<and> (\<not> gave_up h \<and> hphase h \<noteq> Connecting \<longrightarrow>
             (\<exists>m. first_message es = Some m \<and> is_open m) \<and> hd (outbox h) = Init d)"
proof -
  have a: "hphase (host_start d) = Connecting" "outbox (host_start d) = []"
    "waiting (host_start d) = []" "hdata (host_start d) = d"
    by (simp_all add: host_start_def)
  have b: "\<forall>m. \<not> is_open m \<longrightarrow>
             map_option hphase (hstep (Receive m) (host_start d)) = Some (Refused (not_open m))"
    by (simp add: host_start_def handshake_def onclose_keeps Let_def)
  have c: "map_option teardown_view (hstep (Receive Open) (host_start d))
             = Some (Ready, [Init d], True)"
    by (simp add: host_start_def handshake_def is_open_def teardown_view_def Let_def)
  note r = hrun_connecting[OF assms a(1,2,3), unfolded a(4)]
  from r b c show ?thesis by blast
qed

text \<open>
  A handshake followed by a \<open>send\<close>; and a terminal message arriving first, after which
  even \<open>open\<close> does not make the host post anything.
\<close>

theorem handshake_before_init_witness:
  "\<exists>h h'. hrun [Receive Open, CallSend ''ping''] (host_start ''d'') = Some h
     \<and> outbox h = [Init ''d'', Send ''ping'' 0] \<and> hphase h = Ready
     \<and> first_message [Receive Open, CallSend ''ping''] = Some Open
     \<and> hrun [Receive (Closed (Ok ''v'')), Receive Open] (host_start ''d'') = Some h'
     \<and> outbox h' = [] \<and> gave_up h'"
proof -
  obtain h where r: "hrun [Receive Open, CallSend ''ping''] (host_start ''d'') = Some h"
    and o: "outbox h = [Init ''d'', Send ''ping'' 0]" and p: "hphase h = Ready"
    by (simp add: host_start_def host_ops Let_def)
  obtain h' where
    r': "hrun [Receive (Closed (Ok ''v'')), Receive Open] (host_start ''d'') = Some h'"
    by (simp add: host_start_def host_ops Let_def)
  have f: "first_message [Receive (Closed (Ok ''v'')), Receive Open] = Some (Closed (Ok ''v''))"
    by simp
  have n: "\<not> is_open (Closed (Ok ''v''))"
    by (simp add: is_open_def)
  have g: "outbox h' = [] \<and> gave_up h'"
    using handshake_before_init[OF r'] f n by blast
  from g r r' o p show ?thesis by simp
qed

subsection \<open>The host: teardown\<close>

lemma hstep_attached: "hstep e h = Some h' \<Longrightarrow> attached h \<Longrightarrow> attached h'"
proof (cases e)
  case (Receive m)
  assume "hstep e h = Some h'" "attached h"
  with Receive show ?thesis
    by (auto simp: attached_def handshake_def onclose_keeps Let_def split: if_splits)
next
  case Settle
  assume "hstep e h = Some h'" "attached h"
  with Settle show ?thesis
    by (cases "hphase h"; cases "houtcome h")
       (auto simp: attached_def end_teardown_def split: sum.splits)
qed (auto simp: attached_def call_send_def resume_send_def begin_teardown_def split: if_splits)

lemma hrun_attached: "hrun es h = Some h' \<Longrightarrow> attached h \<Longrightarrow> attached h'"
  by (induction es arbitrary: h) (auto split: option.splits dest: hstep_attached)

lemma end_teardown_releases:
  "hphase (end_teardown x y h) = Released x" "\<not> listening (end_teardown x y h)"
  "outbox (end_teardown x y h) = outbox h" "waiting (end_teardown x y h) = waiting h"
  "houtcome (end_teardown x y h) = houtcome h"
  by (cases y; simp add: end_teardown_def)+

lemma hstep_closing: "hstep e h = Some h' \<Longrightarrow> closing x ob h \<Longrightarrow> closing x ob h'"
proof (cases e)
  case (Receive m)
  assume "hstep e h = Some h'" "closing x ob h"
  with Receive show ?thesis
    by (auto simp: closing_def onclose_keeps onclose_settled Let_def split: if_splits)
next
  case Settle
  assume "hstep e h = Some h'" "closing x ob h"
  with Settle show ?thesis
    by (cases "houtcome h") (auto simp: closing_def end_teardown_releases)
qed (auto simp: closing_def split: if_splits)

lemma hrun_closing: "hrun es h = Some h' \<Longrightarrow> closing x ob h \<Longrightarrow> closing x ob h'"
  by (induction es arbitrary: h) (auto split: option.splits dest: hstep_closing)

text \<open>
  C6, as the spec states it, fails for the exits that happen before the handshake is
  done. A first message that is not \<open>open\<close> makes the resource fail, and a cancellation
  while the resource waits for the first message ends it: in both cases \<open>close\<close> is not
  posted and the listener stays registered.
\<close>

theorem no_teardown_before_handshake:
  "map_option teardown_view (hrun [Receive (Other ''ready'')] (host_start ''d''))
     = Some (Refused (not_open (Other ''ready'')), [], True)
   \<and> map_option teardown_view (hrun [ScopeExit Cancelled] (host_start ''d''))
     = Some (Abandoned Cancelled, [], True)"
  by (simp add: teardown_view_def host_start_def handshake_def is_open_def Let_def)

text \<open>
  C6, amended. From any reachable state in which the handle is provided, the scope can
  end with any exit \<open>x\<close>. The host then posts \<open>close\<close> after everything it posted before
  and waits, the listener still registered. In every continuation it posts nothing
  more, and either still waits with the listener registered, or the outcome is settled,
  the listener removed and the teardown done with the exit \<open>x\<close> it was entered with.
  Once the outcome is settled, resolved or rejected alike, the teardown can finish, and
  finishing removes the listener. \<open>settled\<close> never throws.
\<close>

theorem teardown_after_handshake:
  assumes "hrun es (host_start d) = Some h" and "hphase h = Ready"
  shows "\<exists>h1. hstep (ScopeExit x) h = Some h1
       \<and> teardown_view h1 = (Closing x, outbox h @ [Close], True)
       \<and> (\<forall>es' h2. hrun es' h1 = Some h2 \<longrightarrow> closing x (outbox h @ [Close]) h2)
       \<and> (\<forall>es' h2 y. hrun es' h1 = Some h2 \<and> hphase h2 = Closing x \<and> houtcome h2 = Some y \<longrightarrow>
            (\<exists>h3. hstep Settle h2 = Some h3
               \<and> teardown_view h3 = (Released x, outbox h @ [Close], False)))
       \<and> (\<forall>y::err + val. \<exists>r. settled y = Inr r)"
proof -
  define h1 where "h1 = begin_teardown x h"
  have s: "hstep (ScopeExit x) h = Some h1"
    using assms(2) by (simp add: h1_def)
  have "attached (host_start d)"
    by (simp add: attached_def host_start_def)
  with assms have l: "listening h"
    using hrun_attached[of es "host_start d" h] by (auto simp: attached_def)
  then have v: "teardown_view h1 = (Closing x, outbox h @ [Close], True)"
    by (simp add: h1_def teardown_view_def begin_teardown_def)
  have c: "closing x (outbox h @ [Close]) h1"
    using l by (simp add: h1_def closing_def begin_teardown_def)
  have a: "closing x (outbox h @ [Close]) h2" if "hrun es' h1 = Some h2" for es' h2
    using that c hrun_closing by blast
  have b: "\<exists>h3. hstep Settle h2 = Some h3
               \<and> teardown_view h3 = (Released x, outbox h @ [Close], False)"
    if "hrun es' h1 = Some h2" and "hphase h2 = Closing x" and "houtcome h2 = Some y"
    for es' h2 y
    using a[OF that(1)] that(2,3)
    by (simp add: closing_def teardown_view_def end_teardown_releases)
  from s v a b settled_returns show ?thesis by blast
qed

text \<open>The scope fails after a handshake and one \<open>send\<close>.\<close>

theorem teardown_after_handshake_witness:
  "\<exists>h h1. hrun [Receive Open, CallSend ''ping''] (host_start ''d'') = Some h
     \<and> hphase h = Ready
     \<and> hstep (ScopeExit (Failed ''boom'')) h = Some h1
     \<and> hrun [Receive (Closed (Err ''late''))] h1 \<noteq> None
     \<and> teardown_view h1 = (Closing (Failed ''boom''), [Init ''d'', Send ''ping'' 0, Close], True)"
proof -
  obtain h where r: "hrun [Receive Open, CallSend ''ping''] (host_start ''d'') = Some h"
    and p: "hphase h = Ready" and o: "outbox h = [Init ''d'', Send ''ping'' 0]"
    by (simp add: host_start_def host_ops Let_def)
  from teardown_after_handshake[OF r p, of "Failed ''boom''"] obtain h1 where
    s: "hstep (ScopeExit (Failed ''boom'')) h = Some h1"
    and v: "teardown_view h1 = (Closing (Failed ''boom''), outbox h @ [Close], True)"
    by blast
  have "hrun [Receive (Closed (Err ''late''))] h1 \<noteq> None"
    by (simp add: Let_def)
  with r p s v o show ?thesis by simp
qed

subsection \<open>Worker and host together: projections\<close>

lemma inits_append: "inits (xs @ ys) = inits xs @ inits ys"
  by (induction xs rule: inits.induct) simp_all

lemma sstep_W:
  "sstep (W e) s = Some s' \<Longrightarrow>
     \<exists>w'. step e (wk s) = Some w' \<and> s' = s\<lparr>wk := w'\<rparr> \<and> (\<forall>c. e \<noteq> Deliver c)"
  by (cases e) (auto simp: lift_w_def simp del: step.simps split: option.splits)

lemma sstep_H:
  "sstep (H e) s = Some s' \<Longrightarrow> \<exists>h'. hstep e (hs s) = Some h' \<and> s' = s\<lparr>hs := h'\<rparr>"
  by (cases e) (auto simp: lift_h_def simp del: hstep.simps split: option.splits)

lemma sstep_ToWorker:
  "sstep ToWorker s = Some s' \<Longrightarrow>
     wseen s < length (outbox (hs s))
     \<and> s' = s\<lparr>wseen := Suc (wseen s),
              wk := (wk s)\<lparr>controls := controls (wk s) @ [outbox (hs s) ! wseen s]\<rparr>\<rparr>"
  by (auto simp: lift_w_def split: if_splits)

lemma sstep_ToHost:
  "sstep ToHost s = Some s' \<Longrightarrow>
     \<exists>h'. hstep (Receive (posted (wk s) ! hseen s)) (hs s) = Some h'
        \<and> hseen s < length (posted (wk s)) \<and> s' = s\<lparr>hseen := Suc (hseen s), hs := h'\<rparr>"
  by (auto simp: lift_h_def simp del: hstep.simps split: if_splits option.splits)

lemma sstep_Reply:
  "sstep (Reply p) s = Some s' \<Longrightarrow>
     \<exists>r h'. map_of (replies (wk s)) p = Some r \<and> hstep (Response p r) (hs s) = Some h'
        \<and> s' = s\<lparr>hs := h'\<rparr>"
  by (auto simp: lift_h_def simp del: hstep.simps split: option.splits)

lemma map_bdata_update:
  "i < length bs \<Longrightarrow> map bdata (bs[i := (bs ! i)\<lparr>bdone := True\<rparr>]) = map bdata bs"
  by (simp add: list_eq_iff_nth_eq nth_list_update)

lemma step_controls_bodies:
  assumes "step e w = Some w'" and "\<forall>c. e \<noteq> Deliver c"
  shows "(controls w' = controls w \<and> map bdata (bodies w') = map bdata (bodies w))
       \<or> (\<exists>c. e = Dispatch \<and> controls w = c # controls w'
              \<and> map bdata (bodies w') = map bdata (bodies w) @ inits [c])"
proof (cases e)
  case Dispatch
  with assms(1) obtain c cs where c: "controls w = c # cs"
    and w': "w' = dispatch c (w\<lparr>controls := cs\<rparr>)"
    by (auto split: if_splits list.splits)
  then show ?thesis using Dispatch
    by (cases c) (simp_all add: resolve_def sent_send_def)
qed (use assms in \<open>auto simp: worker_ops map_bdata_update split: if_splits option.splits\<close>)

lemma step_unborn:
  assumes "step e w = Some w'" and "unborn w"
    and "e = Dispatch \<longrightarrow> bodies w = [] \<longrightarrow> (\<exists>d cs. controls w = Init d # cs)"
  shows "unborn w'"
proof (cases e)
  case Dispatch
  with assms(1) obtain c cs where c: "controls w = c # cs"
    and w': "w' = dispatch c (w\<lparr>controls := cs\<rparr>)"
    by (auto split: if_splits list.splits)
  then show ?thesis using Dispatch assms(2,3)
    by (cases c) (auto simp: unborn_def resolve_def sent_send_def)
qed (use assms in \<open>auto simp: worker_ops unborn_def split: if_splits option.splits\<close>)

lemma end_teardown_keeps:
  "hdata (end_teardown x y h) = hdata h" "next_port (end_teardown x y h) = next_port h"
  "returned (end_teardown x y h) = returned h"
  by (cases y; simp add: end_teardown_def)+

lemma hstep_well_started: "hstep e h = Some h' \<Longrightarrow> well_started d h \<Longrightarrow> well_started d h'"
proof (cases e)
  case (Receive m)
  assume "hstep e h = Some h'" "well_started d h"
  with Receive show ?thesis
    by (auto simp: well_started_def gave_up_def handshake_def onclose_keeps Let_def
             split: if_splits)
next
  case Settle
  assume "hstep e h = Some h'" "well_started d h"
  with Settle show ?thesis
    by (cases "hphase h"; cases "houtcome h")
       (auto simp: well_started_def gave_up_def end_teardown_releases end_teardown_keeps)
qed (auto simp: well_started_def gave_up_def call_send_def resume_send_def
                begin_teardown_def inits_append
          split: if_splits)


lemma hstep_hdata: "hstep e h = Some h' \<Longrightarrow> hdata h' = hdata h"
proof (cases e)
  case (Receive m)
  assume "hstep e h = Some h'"
  with Receive show ?thesis
    by (auto simp: handshake_def onclose_keeps Let_def split: if_splits)
next
  case Settle
  assume "hstep e h = Some h'"
  with Settle show ?thesis
    by (cases "hphase h"; cases "houtcome h") (auto simp: end_teardown_keeps)
qed (auto simp: call_send_def resume_send_def begin_teardown_def split: if_splits)

lemma delivered_ok_host:
  assumes "delivered_ok s" and "outbox h' = outbox (hs s) @ cs"
  shows "delivered_ok (s\<lparr>hs := h'\<rparr>)"
  using assms by (auto simp: delivered_ok_def)

lemma delivered_ok_deliver:
  assumes "delivered_ok s" and "wseen s < length (outbox (hs s))"
  shows "delivered_ok (s\<lparr>wseen := Suc (wseen s),
           wk := (wk s)\<lparr>controls := controls (wk s) @ [outbox (hs s) ! wseen s]\<rparr>\<rparr>)"
  using assms by (auto simp: delivered_ok_def take_Suc_conv_app_nth)

lemma delivered_ok_worker:
  assumes "delivered_ok s" and "step e (wk s) = Some w'" and "\<forall>c. e \<noteq> Deliver c"
  shows "delivered_ok (s\<lparr>wk := w'\<rparr>)"
proof -
  from assms(1) obtain pre where le: "wseen s \<le> length (outbox (hs s))"
    and t: "take (wseen s) (outbox (hs s)) = pre @ controls (wk s)"
    and b: "map bdata (bodies (wk s)) = inits pre"
    by (auto simp: delivered_ok_def)
  from step_controls_bodies[OF assms(2,3)] show ?thesis
  proof
    assume "controls w' = controls (wk s) \<and> map bdata (bodies w') = map bdata (bodies (wk s))"
    with le t b show ?thesis by (auto simp: delivered_ok_def)
  next
    assume "\<exists>c. e = Dispatch \<and> controls (wk s) = c # controls w'
              \<and> map bdata (bodies w') = map bdata (bodies (wk s)) @ inits [c]"
    then obtain c where c: "controls (wk s) = c # controls w'"
      and b': "map bdata (bodies w') = map bdata (bodies (wk s)) @ inits [c]" by blast
    have "take (wseen s) (outbox (hs s)) = (pre @ [c]) @ controls w'"
      using t c by simp
    moreover have "map bdata (bodies w') = inits (pre @ [c])"
      using b b' by (simp add: inits_append)
    ultimately show ?thesis using le unfolding delivered_ok_def
      by (intro conjI exI[of _ "pre @ [c]"]) simp_all
  qed
qed

lemma first_control:
  assumes "init_once d s" and "bodies (wk s) = []" and "controls (wk s) = c # cs"
  shows "c = Init d"
proof -
  from assms(1) obtain pre where
    t: "take (wseen s) (outbox (hs s)) = pre @ controls (wk s)"
    and b: "map bdata (bodies (wk s)) = inits pre"
    and w: "well_started d (hs s)"
    by (auto simp: init_once_def delivered_ok_def)
  from t assms(3) have ne: "outbox (hs s) \<noteq> []" by auto
  with w have h: "hd (outbox (hs s)) = Init d" by (simp add: well_started_def)
  from t assms(3) have "take (wseen s) (outbox (hs s)) \<noteq> []" by simp
  then have h': "hd (take (wseen s) (outbox (hs s))) = Init d"
    using h ne by (cases "outbox (hs s)"; cases "wseen s") auto
  show ?thesis
  proof (cases pre)
    case Nil
    with t assms(3) h' show ?thesis by simp
  next
    case (Cons a pre')
    with t h' have "a = Init d" by simp
    with Cons b assms(2) show ?thesis by simp
  qed
qed

lemma body_data:
  assumes "init_once d s"
  shows "map bdata (bodies (wk s)) = [] \<or> map bdata (bodies (wk s)) = [d]"
proof -
  from assms obtain pre where
    t: "take (wseen s) (outbox (hs s)) = pre @ controls (wk s)"
    and b: "map bdata (bodies (wk s)) = inits pre"
    and w: "well_started d (hs s)"
    by (auto simp: init_once_def delivered_ok_def)
  show ?thesis
  proof (cases pre)
    case Nil
    with b show ?thesis by simp
  next
    case (Cons a pre')
    with t have ne: "outbox (hs s) \<noteq> []" by auto
    then obtain rest where o: "outbox (hs s) = Init d # rest" and r: "inits rest = []"
      using w by (cases "outbox (hs s)") (auto simp: well_started_def)
    from t Cons o obtain n where n: "wseen s = Suc n" by (cases "wseen s") auto
    with t Cons o have a: "a = Init d" and p: "take n rest = pre' @ controls (wk s)"
      by auto
    have "inits (take n rest) @ inits (drop n rest) = []"
      using r by (metis append_take_drop_id inits_append)
    with p have "inits pre' = []" by (simp add: inits_append)
    with b Cons a show ?thesis by simp
  qed
qed

lemma sstep_init_once:
  assumes "sstep e s = Some s'" and "init_once d s"
  shows "init_once d s'"
proof (cases e)
  case (W x)
  from sstep_W[OF assms(1)[unfolded W]] obtain w' where st: "step x (wk s) = Some w'"
    and s': "s' = s\<lparr>wk := w'\<rparr>" and nd: "\<forall>c. x \<noteq> Deliver c"
    by blast
  have "x = Dispatch \<longrightarrow> bodies (wk s) = [] \<longrightarrow> (\<exists>d cs. controls (wk s) = Init d # cs)"
  proof (intro impI)
    assume "x = Dispatch" "bodies (wk s) = []"
    with st obtain c cs where c: "controls (wk s) = c # cs"
      by (auto split: if_splits list.splits)
    from first_control[OF assms(2) \<open>bodies (wk s) = []\<close> c] c
    show "\<exists>d cs. controls (wk s) = Init d # cs" by blast
  qed
  with st assms(2) have "unborn w'" using step_unborn by (auto simp: init_once_def)
  moreover have "delivered_ok s'"
    using delivered_ok_worker[OF _ st nd] assms(2) s' by (simp add: init_once_def)
  ultimately show ?thesis using assms(2) s' by (simp add: init_once_def)
next
  case (H x)
  from sstep_H[OF assms(1)[unfolded H]] obtain h' where st: "hstep x (hs s) = Some h'"
    and s': "s' = s\<lparr>hs := h'\<rparr>"
    by blast
  from hstep_outbox_grows[OF st] obtain cs where "outbox h' = outbox (hs s) @ cs" ..
  from delivered_ok_host[OF _ this] hstep_well_started[OF st] assms(2) s'
  show ?thesis by (simp add: init_once_def)
next
  case ToWorker
  from sstep_ToWorker[OF assms(1)[unfolded ToWorker]] delivered_ok_deliver[of s] assms(2)
  show ?thesis by (auto simp: init_once_def unborn_def)
next
  case ToHost
  from sstep_ToHost[OF assms(1)[unfolded ToHost]] obtain h' where
    st: "hstep (Receive (posted (wk s) ! hseen s)) (hs s) = Some h'"
    and s': "s' = s\<lparr>hseen := Suc (hseen s), hs := h'\<rparr>"
    by blast
  from hstep_outbox_grows[OF st] obtain cs where o: "outbox h' = outbox (hs s) @ cs" ..
  have "delivered_ok (s\<lparr>hs := h'\<rparr>)"
    using delivered_ok_host[OF _ o] assms(2) by (simp add: init_once_def)
  then have "delivered_ok s'" using s' by (simp add: delivered_ok_def)
  with hstep_well_started[OF st] assms(2) s' show ?thesis by (simp add: init_once_def)
next
  case (Reply p)
  from sstep_Reply[OF assms(1)[unfolded Reply]] obtain r h' where
    st: "hstep (Response p r) (hs s) = Some h'" and s': "s' = s\<lparr>hs := h'\<rparr>"
    by blast
  from hstep_outbox_grows[OF st] obtain cs where "outbox h' = outbox (hs s) @ cs" ..
  from delivered_ok_host[OF _ this] hstep_well_started[OF st] assms(2) s'
  show ?thesis by (simp add: init_once_def)
qed

lemma srun_init_once: "srun es s = Some s' \<Longrightarrow> init_once d s \<Longrightarrow> init_once d s'"
  by (induction es arbitrary: s) (auto split: option.splits dest: sstep_init_once)

lemma start_init_once: "init_once d (system_start d)"
  by (simp add: init_once_def well_started_def delivered_ok_def unborn_def system_start_def
                host_start_def worker_start_def gave_up_def)

lemma srun_append:
  "srun (es @ es') s = (case srun es s of None \<Rightarrow> None | Some s' \<Rightarrow> srun es' s')"
  by (induction es arbitrary: s) (auto simp del: sstep.simps split: option.splits)

lemma sstep_worker:
  "sstep e s = Some s' \<Longrightarrow> wk s' = wk s \<or> (\<exists>x. step x (wk s) = Some (wk s'))"
proof (cases e)
  case (W x)
  assume "sstep e s = Some s'"
  from sstep_W[OF this[unfolded W]] show ?thesis by auto
next
  case (H x)
  assume "sstep e s = Some s'"
  from sstep_H[OF this[unfolded H]] show ?thesis by auto
next
  case ToWorker
  assume "sstep e s = Some s'"
  from sstep_ToWorker[OF this[unfolded ToWorker]]
  have "step (Deliver (outbox (hs s) ! wseen s)) (wk s) = Some (wk s')" by simp
  then show ?thesis by blast
next
  case ToHost
  assume "sstep e s = Some s'"
  from sstep_ToHost[OF this[unfolded ToHost]] show ?thesis by auto
next
  case (Reply p)
  assume "sstep e s = Some s'"
  from sstep_Reply[OF this[unfolded Reply]] show ?thesis by auto
qed

lemma srun_worker: "srun es s = Some s' \<Longrightarrow> \<exists>xs. run xs (wk s) = Some (wk s')"
proof (induction es arbitrary: s)
  case Nil
  then have "run [] (wk s) = Some (wk s')" by simp
  then show ?case by blast
next
  case (Cons e es)
  from Cons.prems obtain s1 where st: "sstep e s = Some s1" and r: "srun es s1 = Some s'"
    by (auto split: option.splits)
  from Cons.IH[OF r] obtain xs where xs: "run xs (wk s1) = Some (wk s')" ..
  from sstep_worker[OF st] show ?case
  proof
    assume "wk s1 = wk s"
    with xs show ?thesis by auto
  next
    assume "\<exists>x. step x (wk s) = Some (wk s1)"
    then obtain x where "step x (wk s) = Some (wk s1)" ..
    with xs have "run (x # xs) (wk s) = Some (wk s')" by simp
    then show ?thesis by blast
  qed
qed

lemma sstep_host:
  "sstep e s = Some s' \<Longrightarrow> hs s' = hs s \<or> (\<exists>x. hstep x (hs s) = Some (hs s'))"
proof (cases e)
  case (W x)
  assume "sstep e s = Some s'"
  from sstep_W[OF this[unfolded W]] show ?thesis by (auto simp del: hstep.simps)
next
  case (H x)
  assume "sstep e s = Some s'"
  from sstep_H[OF this[unfolded H]] show ?thesis by (auto simp del: hstep.simps)
next
  case ToWorker
  assume "sstep e s = Some s'"
  from sstep_ToWorker[OF this[unfolded ToWorker]] show ?thesis by simp
next
  case ToHost
  assume "sstep e s = Some s'"
  from sstep_ToHost[OF this[unfolded ToHost]] show ?thesis by (auto simp del: hstep.simps)
next
  case (Reply p)
  assume "sstep e s = Some s'"
  from sstep_Reply[OF this[unfolded Reply]] show ?thesis by (auto simp del: hstep.simps)
qed

lemma srun_host: "srun es s = Some s' \<Longrightarrow> \<exists>xs. hrun xs (hs s) = Some (hs s')"
proof (induction es arbitrary: s)
  case Nil
  then have "hrun [] (hs s) = Some (hs s')" by simp
  then show ?case by blast
next
  case (Cons e es)
  from Cons.prems obtain s1 where st: "sstep e s = Some s1" and r: "srun es s1 = Some s'"
    by (auto split: option.splits)
  from Cons.IH[OF r] obtain xs where xs: "hrun xs (hs s1) = Some (hs s')" ..
  from sstep_host[OF st] show ?case
  proof
    assume "hs s1 = hs s"
    with xs show ?thesis by auto
  next
    assume "\<exists>x. hstep x (hs s) = Some (hs s1)"
    then obtain x where "hstep x (hs s) = Some (hs s1)" ..
    with xs have "hrun (x # xs) (hs s) = Some (hs s')" by simp
    then show ?thesis by blast
  qed
qed

lemma step_bodies_stay: "step e w = Some w' \<Longrightarrow> bodies w \<noteq> [] \<Longrightarrow> bodies w' \<noteq> []"
proof (cases e)
  case Dispatch
  assume "step e w = Some w'" "bodies w \<noteq> []"
  with Dispatch obtain c cs where "w' = dispatch c (w\<lparr>controls := cs\<rparr>)"
    by (auto split: if_splits list.splits)
  with \<open>bodies w \<noteq> []\<close> show ?thesis
    by (cases c) (simp_all add: resolve_def sent_send_def)
qed (auto simp: worker_ops split: if_splits option.splits)

lemma step_rank: "step e w = Some w' \<Longrightarrow> rank (wphase w) \<le> rank (wphase w')"
proof (cases "finalized w")
  case True
  assume "step e w = Some w'"
  from step_finalized[OF this True] True show ?thesis
    by (simp add: wphase_def)
next
  case False
  assume "step e w = Some w'"
  from step_bodies_stay[OF this] False show ?thesis
    by (auto simp: wphase_def)
qed

lemma run_rank: "run es w = Some w' \<Longrightarrow> rank (wphase w) \<le> rank (wphase w')"
proof (induction es arbitrary: w)
  case Nil
  then show ?case by simp
next
  case (Cons e es)
  from Cons.prems obtain w1 where s: "step e w = Some w1" and r: "run es w1 = Some w'"
    by (auto split: option.splits)
  from step_rank[OF s] Cons.IH[OF r] show ?case by simp
qed

lemma awaiting_only_init:
  assumes "init_once d s" and "wphase (wk s) = AwaitingInit"
    and "\<forall>c. e \<noteq> Deliver c" and "step e (wk s) = Some w'"
  shows "e = Dispatch \<and> wphase w' = Running \<and> bodies w' = [\<lparr>bdata = d, bdone = False\<rparr>]"
proof -
  from assms(2) have nf: "\<not> finalized (wk s)" and nb: "bodies (wk s) = []"
    by (auto simp: wphase_def split: if_splits)
  with assms(1) have u: "outcome (wk s) = None" "loops (wk s) = []" "handlers (wk s) = []"
    by (auto simp: init_once_def unborn_def)
  show ?thesis
  proof (cases e)
    case Dispatch
    with assms(4) nf obtain c cs where c: "controls (wk s) = c # cs"
      and w': "w' = dispatch c ((wk s)\<lparr>controls := cs\<rparr>)"
      by (auto split: if_splits list.splits)
    from first_control[OF assms(1) nb c] have "c = Init d" .
    with w' nb nf Dispatch show ?thesis by (simp add: wphase_def)
  qed (use assms(3,4) nb u in \<open>auto simp: body_running_def split: if_splits\<close>)
qed

lemma bdata_update: "map bdata (bs[i := (bs ! i)\<lparr>bdone := b\<rparr>]) = map bdata bs"
proof (induction bs arbitrary: i)
  case Nil
  then show ?case by simp
next
  case (Cons x bs)
  then show ?case by (cases i) simp_all
qed

lemma bdata_body_end: "map bdata (bodies (body_end i r w)) = map bdata (bodies w)"
  by (simp add: body_end_def resolve_def bdata_update)

lemma step_launched:
  assumes "step e w = Some w'"
  shows "map bdata (bodies w') @ inits (controls w')
           = map bdata (bodies w) @ inits (controls w) @ inits (delivered [e])"
proof (cases e)
  case (Deliver c)
  with assms show ?thesis by (cases c) (auto simp: inits_append)
next
  case Dispatch
  with assms obtain c cs where c: "controls w = c # cs" and w': "w' = dispatch c (w\<lparr>controls := cs\<rparr>)"
    by (auto split: list.splits)
  then show ?thesis using Dispatch
    by (cases c) (simp_all add: resolve_def sent_send_def)
next
  case (BodyReturn i v)
  with assms bdata_body_end[of i "Ok v" w] show ?thesis
    by (auto simp: body_end_def resolve_def split: if_splits)
next
  case (BodyThrow i x)
  with assms bdata_body_end[of i "Err x" w] show ?thesis
    by (auto simp: body_end_def resolve_def split: if_splits)
qed (use assms in \<open>auto simp: worker_ops split: if_splits option.splits\<close>)

lemma delivered_Cons: "delivered (e # es) = delivered [e] @ delivered es"
  by (cases e) simp_all

lemma run_launched:
  "run es w = Some w' \<Longrightarrow>
     map bdata (bodies w') @ inits (controls w')
       = map bdata (bodies w) @ inits (controls w) @ inits (delivered es)"
proof (induction es arbitrary: w)
  case Nil
  then show ?case by simp
next
  case (Cons e es)
  from Cons.prems(1) obtain w1 where s: "step e w = Some w1" and r: "run es w1 = Some w'"
    by (auto split: option.splits)
  from step_launched[OF s] Cons.IH[OF r] delivered_Cons[of e es] show ?case
    by (simp add: inits_append)
qed

lemma step_bodies_grow:
  assumes "step e w = Some w'"
  shows "\<exists>ds. map bdata (bodies w') = map bdata (bodies w) @ ds"
proof (cases e)
  case Dispatch
  with assms obtain c cs where "w' = dispatch c (w\<lparr>controls := cs\<rparr>)"
    by (auto split: list.splits)
  then show ?thesis by (cases c) (simp_all add: resolve_def sent_send_def)
next
  case (BodyReturn i v)
  with assms bdata_body_end[of i "Ok v" w] show ?thesis by (auto split: if_splits)
next
  case (BodyThrow i x)
  with assms bdata_body_end[of i "Err x" w] show ?thesis by (auto split: if_splits)
qed (use assms in \<open>auto simp: worker_ops split: if_splits option.splits\<close>)

lemma run_bodies_grow:
  "run es w = Some w' \<Longrightarrow> \<exists>ds. map bdata (bodies w') = map bdata (bodies w) @ ds"
proof (induction es arbitrary: w)
  case Nil
  then show ?case by simp
next
  case (Cons e es)
  from Cons.prems(1) obtain w1 where s: "step e w = Some w1" and r: "run es w1 = Some w'"
    by (auto split: option.splits)
  from step_bodies_grow[OF s] Cons.IH[OF r] show ?case by auto
qed

text \<open>
  C9, as the spec states it, fails for the worker taken alone: it has no state in which
  only \<open>init\<close> is accepted. A worker that receives \<open>close\<close> first handles it and
  finalizes without having launched a body; a worker that receives \<open>init\<close> twice
  launches two bodies, one with the data of each.
\<close>

theorem worker_has_no_init_guard:
  "map_option launched (run [Deliver Close, Dispatch, Finalize] worker_start)
     = Some (Finalized, [])
   \<and> map_option launched
       (run [Deliver (Init ''a''), Dispatch, Deliver (Init ''b''), Dispatch] worker_start)
     = Some (Running, [''a'', ''b''])"
  by (simp add: launched_def wphase_def worker_start_def worker_ops)

text \<open>
  C9, amended. For the worker alone, in every state \<open>w\<close> it reaches under a schedule
  \<open>xs\<close>: the bodies launched and the \<open>init\<close> messages still buffered are, in order, the
  \<open>init\<close> messages that arrived, so each \<open>init\<close> handled launched one body with its data;
  handling \<open>init\<close> launches one more body with the data of the message, whatever was
  launched before; the data of a body never changes; and the worker never moves
  backwards in \<open>AwaitingInit\<close>, \<open>Running\<close>, \<open>Finalized\<close>.
  For host and worker together, in every state \<open>s\<close> they reach from their start with \<open>d\<close>
  the configured data: while the worker awaits \<open>init\<close>, the only control message it can
  find next is \<open>init\<close> with \<open>d\<close>, and the only thing the worker itself can do is to handle
  it, which takes it to \<open>Running\<close> with exactly one body, launched with \<open>d\<close> and not
  finished. Once it has left \<open>AwaitingInit\<close>, the bodies launched are exactly one, with
  data \<open>d\<close>.
\<close>

theorem one_body_per_init:
  assumes "run xs worker_start = Some w" and "srun es (system_start d) = Some s"
  shows "map bdata (bodies w) @ inits (controls w) = inits (delivered xs)
       \<and> (\<forall>d' cs. controls w = Init d' # cs \<longrightarrow>
            (\<exists>w'. step Dispatch w = Some w' \<and> controls w' = cs
               \<and> bodies w' = bodies w @ [\<lparr>bdata = d', bdone = False\<rparr>]
               \<and> wphase w' = (if finalized w then Finalized else Running)))
       \<and> (\<forall>xs' w'. run xs' w = Some w' \<longrightarrow>
            rank (wphase w) \<le> rank (wphase w')
            \<and> (\<exists>ds. map bdata (bodies w') = map bdata (bodies w) @ ds))
       \<and> (wphase (wk s) = AwaitingInit \<longrightarrow>
            (\<forall>c cs. controls (wk s) = c # cs \<longrightarrow> c = Init d)
            \<and> (\<forall>e w'. (\<forall>c. e \<noteq> Deliver c) \<and> step e (wk s) = Some w' \<longrightarrow>
                  e = Dispatch \<and> wphase w' = Running
                  \<and> bodies w' = [\<lparr>bdata = d, bdone = False\<rparr>]))
       \<and> (wphase (wk s) \<noteq> AwaitingInit \<longrightarrow> map bdata (bodies (wk s)) = [d])
       \<and> (\<forall>es' s'. srun es' s = Some s' \<longrightarrow> rank (wphase (wk s)) \<le> rank (wphase (wk s')))"
proof -
  have l: "map bdata (bodies w) @ inits (controls w) = inits (delivered xs)"
    using run_launched[OF assms(1)] by (simp add: worker_start_def)
  have n: "\<forall>d' cs. controls w = Init d' # cs \<longrightarrow>
            (\<exists>w'. step Dispatch w = Some w' \<and> controls w' = cs
               \<and> bodies w' = bodies w @ [\<lparr>bdata = d', bdone = False\<rparr>]
               \<and> wphase w' = (if finalized w then Finalized else Running))"
    by (simp add: wphase_def)
  have m: "rank (wphase w) \<le> rank (wphase w')
            \<and> (\<exists>ds. map bdata (bodies w') = map bdata (bodies w) @ ds)"
    if "run xs' w = Some w'" for xs' w'
    using run_rank[OF that] run_bodies_grow[OF that] by blast
  have i: "init_once d s"
    using assms(2) srun_init_once start_init_once by blast
  have a: "\<forall>c cs. controls (wk s) = c # cs \<longrightarrow> c = Init d"
    if "wphase (wk s) = AwaitingInit"
    using that first_control[OF i] by (auto simp: wphase_def split: if_splits)
  have b: "\<forall>e w'. (\<forall>c. e \<noteq> Deliver c) \<and> step e (wk s) = Some w' \<longrightarrow>
                  e = Dispatch \<and> wphase w' = Running
                  \<and> bodies w' = [\<lparr>bdata = d, bdone = False\<rparr>]"
    if "wphase (wk s) = AwaitingInit"
    using awaiting_only_init[OF i that] by blast
  have c: "map bdata (bodies (wk s)) = [d]" if "wphase (wk s) \<noteq> AwaitingInit"
  proof -
    from srun_worker[OF assms(2)] obtain ys where "run ys worker_start = Some (wk s)"
      by (auto simp: system_start_def)
    then have "posted_ok (wk s)" using run_posted_ok start_posted_ok by blast
    moreover from i have "unborn (wk s)" by (simp add: init_once_def)
    ultimately have "bodies (wk s) \<noteq> []"
      using that by (auto simp: wphase_def posted_ok_def unborn_def split: if_splits)
    with body_data[OF i] show ?thesis by auto
  qed
  have r: "rank (wphase (wk s)) \<le> rank (wphase (wk s'))" if "srun es' s = Some s'" for es' s'
    using srun_worker[OF that] run_rank by blast
  from l n m a b c r show ?thesis by blast
qed

text \<open>
  A worker with one body launched and a second \<open>init\<close> buffered; and host and worker
  together: handshake and \<open>init\<close>, then the scope ends and the worker finalizes.
\<close>

theorem one_body_per_init_witness:
  "\<exists>w s s'. run [Deliver (Init ''a''), Dispatch, Deliver (Init ''b'')] worker_start = Some w
     \<and> map bdata (bodies w) = [''a''] \<and> controls w = [Init ''b'']
     \<and> srun [ToHost, ToWorker] (system_start ''cfg'') = Some s
     \<and> wphase (wk s) = AwaitingInit \<and> controls (wk s) = [Init ''cfg'']
     \<and> srun [W Dispatch, H (ScopeExit Completed), ToWorker, W Dispatch, W Finalize] s = Some s'
     \<and> wphase (wk s') = Finalized \<and> map bdata (bodies (wk s')) = [''cfg'']"
proof -
  obtain w where x: "run [Deliver (Init ''a''), Dispatch, Deliver (Init ''b'')] worker_start = Some w"
    and y: "controls w = [Init ''b'']"
    by (simp add: worker_start_def worker_ops)
  obtain s where r: "srun [ToHost, ToWorker] (system_start ''cfg'') = Some s"
    and p: "wphase (wk s) = AwaitingInit" and c: "controls (wk s) = [Init ''cfg'']"
    by (simp add: system_ops host_ops worker_ops wphase_def)
  obtain s' where
    r': "srun [W Dispatch, H (ScopeExit Completed), ToWorker, W Dispatch, W Finalize] s = Some s'"
    and p': "wphase (wk s') = Finalized"
    using r by (auto simp add: system_ops host_ops worker_ops wphase_def)
  have q: "srun ([ToHost, ToWorker]
          @ [W Dispatch, H (ScopeExit Completed), ToWorker, W Dispatch, W Finalize])
          (system_start ''cfg'') = Some s'"
    using r r' by (simp only: srun_append option.case)
  from one_body_per_init[OF x q] p' y
  have "map bdata (bodies (wk s')) = [''cfg'']" "map bdata (bodies w) = [''a'']"
    by simp_all
  with x y r p c r' p' show ?thesis by (auto simp del: srun.simps run.simps)
qed

subsection \<open>Requests and responses\<close>

lemma ports_append: "ports (xs @ ys) = ports xs @ ports ys"
  by (induction xs rule: ports.induct) simp_all

lemma sum_list_map_update:
  "k < length xs \<Longrightarrow>
     sum_list (map f (xs[k := y])) + f (xs ! k) = sum_list (map f xs) + (f y :: nat)"
proof (induction xs arbitrary: k)
  case Nil
  then show ?case by simp
next
  case (Cons x xs)
  then show ?case by (cases k) auto
qed

lemma sum_list_map_le:
  "(\<And>x. x \<in> set xs \<Longrightarrow> f (g x) \<le> (f x :: nat)) \<Longrightarrow>
     sum_list (map f (map g xs)) \<le> sum_list (map f xs)"
  by (induction xs) (auto simp: add_mono)

lemma sum_list_map_zero:
  "(\<And>x. x \<in> set xs \<Longrightarrow> f x = (0 :: nat)) \<Longrightarrow> sum_list (map f xs) = 0"
  by (induction xs) auto

lemma qcount_enqueue:
  "qcount p (enqueue (v, q) l) = qcount p l + (if lalive l \<and> q = p then 1 else 0)"
  by (simp add: qcount_def enqueue_def)

lemma dcount_fields:
  "loops w' = loops w \<Longrightarrow> handlers w' = handlers w \<Longrightarrow> replies w' = replies w
   \<Longrightarrow> dcount p w' = dcount p w"
  by (simp add: dcount_def)

lemma dcount_body_end: "dcount p (body_end i r w) \<le> dcount p w"
proof -
  have "dcount p (body_end i r w) = dcount p w"
    by (rule dcount_fields) (simp_all add: body_end_def resolve_def)
  then show ?thesis by simp
qed

lemma dcount_finalize: "dcount p (finalize r w) \<le> dcount p w"
proof -
  have "dcount p (finalize r w) = dcount p w"
    by (rule dcount_fields) (simp_all add: finalize_def)
  then show ?thesis by simp
qed

lemma dcount_loop_take:
  assumes "j < length (loops w)" and "lalive (loops w ! j)" and "lqueue (loops w ! j) \<noteq> []"
  shows "dcount p (loop_take j w) = dcount p w"
proof -
  define l where "l = loops w ! j"
  from assms(3) obtain m ms where q: "lqueue l = m # ms"
    by (cases "lqueue l") (auto simp: l_def)
  have a: "qcount p l = qcount p (l\<lparr>lqueue := ms\<rparr>) + (if snd m = p then 1 else 0)"
    using assms(2) q by (simp add: qcount_def l_def)
  have b: "sum_list (map (qcount p) ((loops w)[j := l\<lparr>lqueue := ms\<rparr>])) + qcount p l
     = sum_list (map (qcount p) (loops w)) + qcount p (l\<lparr>lqueue := ms\<rparr>)"
    using sum_list_map_update[OF assms(1), of "qcount p"] by (simp add: l_def)
  have c: "loop_take j w =
     w\<lparr>loops := (loops w)[j := l\<lparr>lqueue := ms\<rparr>],
       handlers := handlers w @
         [\<lparr>howner = lowner l, hfn = lfn l, hvalue = fst m, hresponse = snd m,
           hstatus = Pending\<rparr>]\<rparr>"
    using q by (simp add: loop_take_def Let_def l_def[symmetric])
  from a b show ?thesis
    unfolding c by (simp add: dcount_def hcount_def split: if_splits)
qed

lemma dcount_handler_run:
  assumes "k < length (handlers w)" and "hstatus (handlers w ! k) = Pending"
  shows "dcount p (handler_run k w) = dcount p w"
proof -
  define h where "h = handlers w ! k"
  have a: "hcount p h = (if hresponse h = p then 1 else 0)"
    using assms(2) by (simp add: hcount_def h_def)
  have b: "sum_list (map (hcount p) ((handlers w)[k := h\<lparr>hstatus := Finished\<rparr>]))
       + hcount p h
     = sum_list (map (hcount p) (handlers w)) + hcount p (h\<lparr>hstatus := Finished\<rparr>)"
    using sum_list_map_update[OF assms(1), of "hcount p"] by (simp add: h_def)
  have c: "hcount p (h\<lparr>hstatus := Finished\<rparr>) = 0"
    by (simp add: hcount_def)
  from a b c show ?thesis
    by (simp add: dcount_def handler_run_def Let_def h_def[symmetric] split: if_splits)
qed

lemma dcount_dispatch_other:
  assumes "\<forall>v. c \<noteq> Send v p"
  shows "dcount p (dispatch c w) = dcount p w"
proof (cases c)
  case (Send v q)
  with assms have "q \<noteq> p" by simp
  then have "map (qcount p) (map (enqueue (v, q)) (loops w)) = map (qcount p) (loops w)"
    by (simp add: qcount_enqueue)
  with Send show ?thesis by (simp add: dcount_def sent_send_def del: map_map)
qed (simp_all add: dcount_def resolve_def)

lemma dcount_dispatch_dropped:
  assumes "\<forall>l\<in>set (loops w). \<not> lalive l"
  shows "loops (dispatch (Send v p) w) = loops w" "dcount q (dispatch (Send v p) w) = dcount q w"
proof -
  have "map (enqueue (v, p)) (loops w) = loops w"
    using assms by (simp add: enqueue_def map_idI)
  then show "loops (dispatch (Send v p) w) = loops w"
    by (simp add: sent_send_def)
  then show "dcount q (dispatch (Send v p) w) = dcount q w"
    by (simp add: dcount_def sent_send_def)
qed

lemma dcount_dispatch_single:
  assumes "length (loops w) \<le> 1"
  shows "dcount p (dispatch (Send v p) w) \<le> dcount p w + 1"
proof (cases "loops w")
  case Nil
  then show ?thesis by (simp add: dcount_def sent_send_def)
next
  case (Cons l ls)
  with assms have "ls = []" by simp
  with Cons show ?thesis by (simp add: dcount_def sent_send_def qcount_enqueue)
qed

lemma step_dcount:
  assumes "step e w = Some w'" and "\<forall>v cs. e = Dispatch \<longrightarrow> controls w \<noteq> Send v p # cs"
  shows "dcount p w' \<le> dcount p w"
proof (cases e)
  case (Deliver c)
  with assms(1) have "dcount p w' = dcount p w"
    by (auto intro: dcount_fields)
  then show ?thesis by simp
next
  case Dispatch
  with assms(1) obtain c cs where c: "controls w = c # cs"
    and w': "w' = dispatch c (w\<lparr>controls := cs\<rparr>)"
    by (auto split: if_splits list.splits)
  from c assms(2) Dispatch have "\<forall>v. c \<noteq> Send v p" by auto
  from dcount_dispatch_other[OF this] w' have "dcount p w' = dcount p (w\<lparr>controls := cs\<rparr>)"
    by simp
  also have "\<dots> = dcount p w" by (rule dcount_fields) simp_all
  finally show ?thesis by simp
next
  case (BodyForEach i f)
  with assms(1) show ?thesis
    by (auto simp: dcount_def qcount_def split: if_splits)
next
  case (LoopTake j)
  with assms(1) show ?thesis
    by (auto simp: dcount_loop_take split: if_splits)
next
  case (HandlerRun k)
  with assms(1) show ?thesis
    by (auto simp: dcount_handler_run split: if_splits)
next
  case (BodyReturn i v)
  with assms(1) show ?thesis
    by (auto simp: dcount_body_end split: if_splits)
next
  case (BodyThrow i x)
  with assms(1) show ?thesis
    by (auto simp: dcount_body_end split: if_splits)
next
  case Finalize
  with assms(1) show ?thesis
    by (auto simp: dcount_finalize split: if_splits option.splits)
qed

lemma step_loops_grow: "step e w = Some w' \<Longrightarrow> \<exists>fs. map lfn (loops w') = map lfn (loops w) @ fs"
proof (cases e)
  case Dispatch
  assume "step e w = Some w'"
  with Dispatch obtain c cs where w': "w' = dispatch c (w\<lparr>controls := cs\<rparr>)"
    by (auto split: if_splits list.splits)
  have "map lfn (map (enqueue m) ls) = map lfn ls" for m ls
    by (simp add: enqueue_def)
  with w' show ?thesis
    by (cases c) (simp_all add: resolve_def sent_send_def del: map_map)
next
  case (LoopTake j)
  assume "step e w = Some w'"
  with LoopTake have j: "j < length (loops w)" and w': "w' = loop_take j w"
    by (auto split: if_splits)
  have "map lfn ((loops w)[j := (loops w ! j)\<lparr>lqueue := tl (lqueue (loops w ! j))\<rparr>])
          = map lfn (loops w)"
    using j by (simp add: list_eq_iff_nth_eq nth_list_update)
  with w' show ?thesis by (simp add: loop_take_def Let_def)
next
  case (BodyReturn i v)
  assume "step e w = Some w'"
  then show ?thesis using BodyReturn
    by (auto simp: body_end_def resolve_def split: if_splits)
next
  case (BodyThrow i x)
  assume "step e w = Some w'"
  then show ?thesis using BodyThrow
    by (auto simp: body_end_def resolve_def split: if_splits)
next
  case Finalize
  assume "step e w = Some w'"
  then show ?thesis using Finalize
    by (auto simp: finalize_def split: if_splits option.splits)
qed (auto simp: handler_run_def Let_def split: if_splits)

lemma run_loops_grow: "run es w = Some w' \<Longrightarrow> \<exists>fs. map lfn (loops w') = map lfn (loops w) @ fs"
proof (induction es arbitrary: w)
  case Nil
  then show ?case by simp
next
  case (Cons e es)
  from Cons.prems obtain w1 where s: "step e w = Some w1" and r: "run es w1 = Some w'"
    by (auto split: option.splits)
  from step_loops_grow[OF s] Cons.IH[OF r] show ?case by auto
qed

lemma run_loops_length: "run es w = Some w' \<Longrightarrow> length (loops w) \<le> length (loops w')"
proof -
  assume "run es w = Some w'"
  from run_loops_grow[OF this] obtain fs where "map lfn (loops w') = map lfn (loops w) @ fs" ..
  then have "length (map lfn (loops w')) = length (map lfn (loops w) @ fs)" by simp
  then show ?thesis by simp
qed

lemma step_replies_grow: "step e w = Some w' \<Longrightarrow> \<exists>rs. replies w' = replies w @ rs"
  by (cases e)
    (auto simp: worker_ops dispatch_keeps split: if_splits list.splits option.splits)

lemma Send_in_ports: "Send v p \<in> set cs \<Longrightarrow> p \<in> set (ports cs)"
  by (induction cs rule: ports.induct) auto

lemma ports_unique:
  "distinct (ports cs) \<Longrightarrow> Send v p \<in> set cs \<Longrightarrow> Send v' p \<in> set cs \<Longrightarrow> v = v'"
  by (induction cs rule: ports.induct) (auto dest: Send_in_ports)

lemma hstep_ports:
  assumes "hstep e h = Some h'"
  shows "(\<exists>v. e = CallSend v \<and> outbox h' = outbox h @ [Send v (next_port h)]
            \<and> next_port h' = Suc (next_port h))
       \<or> (\<exists>cs. outbox h' = outbox h @ cs \<and> ports cs = [] \<and> next_port h' = next_port h)"
proof (cases e)
  case (Receive m)
  with assms show ?thesis
    by (auto simp: handshake_def onclose_keeps Let_def split: if_splits)
next
  case Settle
  with assms show ?thesis
    by (cases "hphase h"; cases "houtcome h")
       (auto simp: end_teardown_releases end_teardown_keeps)
qed (use assms in \<open>auto simp: call_send_def resume_send_def begin_teardown_def
                          split: if_splits\<close>)

lemma hstep_returned:
  assumes "hstep e h = Some h'"
  shows "(returned h' = returned h \<and> (\<forall>p r. e \<noteq> Response p r))
       \<or> (\<exists>p r. e = Response p r \<and> p \<in> fst ` set (waiting h)
             \<and> returned h' = returned h @ [(p, of_result r)])"
proof (cases e)
  case (Receive m)
  with assms show ?thesis
    by (auto simp: handshake_def onclose_keeps Let_def split: if_splits)
next
  case Settle
  with assms show ?thesis
    by (cases "hphase h"; cases "houtcome h") (auto simp: end_teardown_keeps)
qed (use assms in \<open>auto simp: call_send_def resume_send_def begin_teardown_def
                          split: if_splits\<close>)

lemma hports_quiet:
  assumes "hports h" and "outbox h' = outbox h @ cs" and "ports cs = []"
    and "next_port h' = next_port h" and "set (waiting h') \<subseteq> set (waiting h)"
    and "returned h' = returned h"
  shows "hports h'"
proof -
  have "(p, v) \<in> set (waiting h') \<Longrightarrow> Send v p \<in> set (outbox h')" for p v
    using assms(1,2,5) unfolding hports_def by auto
  moreover have "(p, x) \<in> set (returned h') \<Longrightarrow>
      p < next_port h' \<and> (\<forall>v. (p, v) \<notin> set (waiting h'))" for p x
    using assms(1,4,5,6) unfolding hports_def by (metis subsetD)
  moreover have "distinct (ports (outbox h'))" "\<forall>p\<in>set (ports (outbox h')). p < next_port h'"
    "distinct (map fst (returned h'))"
    using assms(1,2,3,4,6) unfolding hports_def by (simp_all add: ports_append)
  ultimately show ?thesis unfolding hports_def by blast
qed

lemma hstep_hports: "hstep e h = Some h' \<Longrightarrow> hports h \<Longrightarrow> hports h'"
proof (cases e)
  case (Receive m)
  assume st: "hstep e h = Some h'" and hp: "hports h"
  from hstep_ports[OF st] Receive obtain cs where "outbox h' = outbox h @ cs" "ports cs = []"
    "next_port h' = next_port h" by auto
  moreover from st Receive have "waiting h' = waiting h" "returned h' = returned h"
    by (auto simp: handshake_def onclose_keeps Let_def split: if_splits)
  ultimately show ?thesis using hports_quiet[OF hp] by simp
next
  case (CallSend v)
  assume st: "hstep e h = Some h'" and hp: "hports h"
  with CallSend have h': "h' = call_send v h" by (auto split: if_splits)
  have "(p, u) \<in> set (waiting h') \<Longrightarrow> Send u p \<in> set (outbox h')" for p u
    using hp unfolding hports_def h' call_send_def by auto
  moreover have "(p, x) \<in> set (returned h') \<Longrightarrow>
      p < next_port h' \<and> (\<forall>u. (p, u) \<notin> set (waiting h'))" for p x
    using hp unfolding hports_def h' call_send_def by fastforce
  moreover have "distinct (ports (outbox h'))" "\<forall>p\<in>set (ports (outbox h')). p < next_port h'"
    "distinct (map fst (returned h'))"
    using hp unfolding hports_def h' call_send_def by (auto simp: ports_append)
  ultimately show ?thesis unfolding hports_def by blast
next
  case (Response p r)
  assume st: "hstep e h = Some h'" and hp: "hports h"
  with Response obtain v where w: "(p, v) \<in> set (waiting h)"
    and h': "h' = resume_send p r h"
    by (auto split: if_splits)
  from w hp have nr: "p \<notin> fst ` set (returned h)" and lt: "p < next_port h"
    unfolding hports_def by (force dest: Send_in_ports)+
  have "(q, u) \<in> set (waiting h') \<Longrightarrow> Send u q \<in> set (outbox h')" for q u
    using hp unfolding hports_def h' resume_send_def by auto
  moreover have "(q, x) \<in> set (returned h') \<Longrightarrow>
      q < next_port h' \<and> (\<forall>u. (q, u) \<notin> set (waiting h'))" for q x
    using hp lt unfolding hports_def h' resume_send_def by auto
  moreover have "distinct (ports (outbox h'))" "\<forall>p\<in>set (ports (outbox h')). p < next_port h'"
    "distinct (map fst (returned h'))"
    using hp nr unfolding hports_def h' resume_send_def by auto
  ultimately show ?thesis unfolding hports_def by blast
next
  case (ScopeExit x)
  assume st: "hstep e h = Some h'" and hp: "hports h"
  from hstep_ports[OF st] ScopeExit obtain cs where "outbox h' = outbox h @ cs"
    "ports cs = []" "next_port h' = next_port h" by auto
  moreover from st ScopeExit have "set (waiting h') \<subseteq> set (waiting h)"
    "returned h' = returned h"
    by (auto simp: begin_teardown_def split: if_splits)
  ultimately show ?thesis using hports_quiet[OF hp] by simp
next
  case Settle
  assume st: "hstep e h = Some h'" and hp: "hports h"
  from hstep_ports[OF st] Settle obtain cs where "outbox h' = outbox h @ cs"
    "ports cs = []" "next_port h' = next_port h" by auto
  moreover from st Settle have "waiting h' = waiting h" "returned h' = returned h"
    by (cases "hphase h"; cases "houtcome h";
        auto simp: end_teardown_releases end_teardown_keeps)+
  ultimately show ?thesis using hports_quiet[OF hp] by simp
qed

lemma hrun_hports: "hrun es h = Some h' \<Longrightarrow> hports h \<Longrightarrow> hports h'"
  by (induction es arbitrary: h) (auto split: option.splits dest: hstep_hports)

lemma start_hports: "hports (host_start d)"
  by (simp add: hports_def host_start_def)

lemma step_controls_same:
  "step e w = Some w' \<Longrightarrow> e \<noteq> Dispatch \<Longrightarrow> \<forall>c. e \<noteq> Deliver c \<Longrightarrow> controls w' = controls w"
  by (cases e) (auto simp: worker_ops split: if_splits option.splits)

lemma step_loops_length: "step e w = Some w' \<Longrightarrow> length (loops w) \<le> length (loops w')"
  using run_loops_length[of "[e]" w w'] by simp

lemma moved_worker:
  assumes "step e (wk s) = Some w'" and "\<forall>c. e \<noteq> Deliver c"
  shows "moved p s (s\<lparr>wk := w'\<rparr>)"
proof (cases "e = Dispatch")
  case False
  from step_controls_same[OF assms(1) False assms(2)]
  have "pcount p (s\<lparr>wk := w'\<rparr>) = pcount p s" by (simp add: pcount_def)
  moreover from step_dcount[OF assms(1), of p] False have "dcount p w' \<le> dcount p (wk s)"
    by simp
  ultimately show ?thesis by (simp add: moved_def)
next
  case True
  with assms(1) obtain c cs where c: "controls (wk s) = c # cs"
    and w': "w' = dispatch c ((wk s)\<lparr>controls := cs\<rparr>)"
    by (auto split: if_splits list.splits)
  have cw: "controls w' = cs" using w' by (simp add: dispatch_keeps)
  have f: "dcount p ((wk s)\<lparr>controls := cs\<rparr>) = dcount p (wk s)"
    by (rule dcount_fields) simp_all
  show ?thesis
  proof (cases "\<exists>v. c = Send v p")
    case True
    then obtain v where v: "c = Send v p" ..
    have "Suc (pcount p (s\<lparr>wk := w'\<rparr>)) = pcount p s"
      using c cw v by (simp add: pcount_def)
    moreover have "length (loops (wk s)) \<le> 1 \<longrightarrow> dcount p w' \<le> Suc (dcount p (wk s))"
      using dcount_dispatch_single[of "(wk s)\<lparr>controls := cs\<rparr>" p v] f w' v by simp
    ultimately show ?thesis by (simp add: moved_def)
  next
    case False
    then have n: "\<forall>v. c \<noteq> Send v p" by simp
    then have "count_list (ports (c # cs)) p = count_list (ports cs) p"
      by (cases c) auto
    then have "pcount p (s\<lparr>wk := w'\<rparr>) = pcount p s"
      using c cw by (simp add: pcount_def)
    moreover have "dcount p w' = dcount p (wk s)"
      using dcount_dispatch_other[OF n] f w' by simp
    ultimately show ?thesis by (simp add: moved_def)
  qed
qed

lemma moved_deliver:
  assumes "wseen s < length (outbox (hs s))"
  shows "moved p s (s\<lparr>wseen := Suc (wseen s),
           wk := (wk s)\<lparr>controls := controls (wk s) @ [outbox (hs s) ! wseen s]\<rparr>\<rparr>)"
proof -
  define c where "c = outbox (hs s) ! wseen s"
  define rest where "rest = drop (Suc (wseen s)) (outbox (hs s))"
  have d: "drop (wseen s) (outbox (hs s)) = c # rest"
    using assms by (simp add: Cons_nth_drop_Suc c_def rest_def)
  have "ports (controls (wk s) @ [c]) @ ports rest = ports (controls (wk s)) @ ports (c # rest)"
    using ports_append[of "[c]" rest] by (simp add: ports_append)
  then have "pcount p (s\<lparr>wseen := Suc (wseen s),
           wk := (wk s)\<lparr>controls := controls (wk s) @ [c]\<rparr>\<rparr>) = pcount p s"
    unfolding pcount_def d by (simp add: rest_def)
  moreover have "dcount p ((wk s)\<lparr>controls := controls (wk s) @ [c]\<rparr>) = dcount p (wk s)"
    by (rule dcount_fields) simp_all
  ultimately show ?thesis by (simp add: moved_def c_def)
qed

lemma moved_host:
  assumes "hstep e (hs s) = Some h'" and "wseen s \<le> length (outbox (hs s))"
  shows "moved p (s\<lparr>hseen := n\<rparr>) (s\<lparr>hseen := n', hs := h'\<rparr>)
       \<and> wseen s \<le> length (outbox h') \<and> next_port (hs s) \<le> next_port h'"
  using hstep_ports[OF assms(1)]
proof
  assume "\<exists>v. e = CallSend v \<and> outbox h' = outbox (hs s) @ [Send v (next_port (hs s))]
            \<and> next_port h' = Suc (next_port (hs s))"
  then obtain v where o: "outbox h' = outbox (hs s) @ [Send v (next_port (hs s))]"
    and n: "next_port h' = Suc (next_port (hs s))" by blast
  have "pcount p (s\<lparr>hseen := n', hs := h'\<rparr>)
          = pcount p (s\<lparr>hseen := n\<rparr>) + (if next_port (hs s) = p then 1 else 0)"
    using assms(2) o by (simp add: pcount_def ports_append)
  with assms(2) o n show ?thesis by (auto simp: moved_def)
next
  assume "\<exists>cs. outbox h' = outbox (hs s) @ cs \<and> ports cs = []
            \<and> next_port h' = next_port (hs s)"
  then obtain cs where o: "outbox h' = outbox (hs s) @ cs" and c: "ports cs = []"
    and n: "next_port h' = next_port (hs s)" by blast
  have "pcount p (s\<lparr>hseen := n', hs := h'\<rparr>) = pcount p (s\<lparr>hseen := n\<rparr>)"
    using assms(2) o c by (simp add: pcount_def ports_append)
  with assms(2) o n show ?thesis by (simp add: moved_def)
qed

lemma sstep_moved:
  assumes "sstep e s = Some s'" and "wseen s \<le> length (outbox (hs s))"
  shows "moved p s s' \<and> wseen s' \<le> length (outbox (hs s'))
       \<and> next_port (hs s) \<le> next_port (hs s')"
proof (cases e)
  case (W x)
  from sstep_W[OF assms(1)[unfolded W]] obtain w' where st: "step x (wk s) = Some w'"
    and s': "s' = s\<lparr>wk := w'\<rparr>" and nd: "\<forall>c. x \<noteq> Deliver c"
    by blast
  from moved_worker[OF st nd, of p] s' assms(2) show ?thesis by simp
next
  case (H x)
  from sstep_H[OF assms(1)[unfolded H]] obtain h' where st: "hstep x (hs s) = Some h'"
    and s': "s' = s\<lparr>hs := h'\<rparr>"
    by blast
  from moved_host[OF st assms(2), of p "hseen s" "hseen s"] s' show ?thesis by simp
next
  case ToWorker
  from sstep_ToWorker[OF assms(1)[unfolded ToWorker]] moved_deliver[of s p]
  show ?thesis by auto
next
  case ToHost
  from sstep_ToHost[OF assms(1)[unfolded ToHost]] obtain h' where
    st: "hstep (Receive (posted (wk s) ! hseen s)) (hs s) = Some h'"
    and s': "s' = s\<lparr>hseen := Suc (hseen s), hs := h'\<rparr>"
    by blast
  from moved_host[OF st assms(2), of p "hseen s" "Suc (hseen s)"] s' show ?thesis by simp
next
  case (Reply q)
  from sstep_Reply[OF assms(1)[unfolded Reply]] obtain r h' where
    st: "hstep (Response q r) (hs s) = Some h'" and s': "s' = s\<lparr>hs := h'\<rparr>"
    by blast
  from moved_host[OF st assms(2), of p "hseen s" "hseen s"] s' show ?thesis by simp
qed

lemma busy_le: "dcount p w' \<le> dcount p w \<Longrightarrow> busy p w' \<le> busy p w"
  by (simp add: busy_def)

lemma sstep_fresh_ports:
  assumes "sstep e s = Some s'" and "fresh_ports s"
  shows "fresh_ports s'"
proof -
  from assms(2) have le: "wseen s \<le> length (outbox (hs s))"
    and b: "\<And>p. pcount p s + busy p (wk s) \<le> (if p < next_port (hs s) then 1 else 0)"
    by (auto simp: fresh_ports_def)
  have "pcount p s' + busy p (wk s') \<le> (if p < next_port (hs s') then 1 else 0)" for p
  proof -
    from sstep_moved[OF assms(1) le, of p]
    have m: "moved p s s'" and np: "next_port (hs s) \<le> next_port (hs s')" by auto
    from m consider
      (same) "pcount p s' = pcount p s" "dcount p (wk s') \<le> dcount p (wk s)"
      | (taken) "Suc (pcount p s') = pcount p s" "next_port (hs s') = next_port (hs s)"
      | (new) "pcount p s' = Suc (pcount p s)" "p = next_port (hs s)"
          "next_port (hs s') = Suc p" "wk s' = wk s"
      by (auto simp: moved_def)
    then show ?thesis
    proof cases
      case same
      with b[of p] busy_le[OF same(2)] np show ?thesis
        by (auto split: if_splits)
    next
      case taken
      with b[of p] show ?thesis
        by (auto simp: busy_def split: if_splits)
    next
      case new
      with b[of p] show ?thesis
        by (auto simp: busy_def split: if_splits)
    qed
  qed
  with sstep_moved[OF assms(1) le] show ?thesis by (simp add: fresh_ports_def)
qed

lemma srun_fresh_ports: "srun es s = Some s' \<Longrightarrow> fresh_ports s \<Longrightarrow> fresh_ports s'"
  by (induction es arbitrary: s)
     (auto simp del: sstep.simps split: option.splits dest: sstep_fresh_ports)

lemma start_fresh_ports: "fresh_ports (system_start d)"
  by (simp add: fresh_ports_def pcount_def busy_def dcount_def system_start_def
                worker_start_def host_start_def)

lemma sstep_one_each:
  assumes "sstep e s = Some s'" and "length (loops (wk s')) \<le> 1"
    and "fresh_ports s" and "one_each s"
  shows "one_each s'"
proof -
  from assms(3) have le: "wseen s \<le> length (outbox (hs s))"
    and b: "\<And>p. pcount p s + busy p (wk s) \<le> (if p < next_port (hs s) then 1 else 0)"
    by (auto simp: fresh_ports_def)
  from sstep_worker[OF assms(1)] have "length (loops (wk s)) \<le> length (loops (wk s'))"
    using step_loops_length by auto
  with assms(2) have l: "length (loops (wk s)) \<le> 1" by simp
  have "pcount p s' + dcount p (wk s') \<le> 1" for p
  proof -
    from assms(4) have o: "pcount p s + dcount p (wk s) \<le> 1" by (simp add: one_each_def)
    from sstep_moved[OF assms(1) le, of p] have "moved p s s'" by simp
    then consider
      (same) "pcount p s' = pcount p s" "dcount p (wk s') \<le> dcount p (wk s)"
      | (taken) "Suc (pcount p s') = pcount p s" "dcount p (wk s') \<le> Suc (dcount p (wk s))"
      | (new) "pcount p s' = Suc (pcount p s)" "p = next_port (hs s)" "wk s' = wk s"
      using l by (auto simp: moved_def)
    then show ?thesis
    proof cases
      case same
      with o show ?thesis by simp
    next
      case taken
      with o show ?thesis by simp
    next
      case new
      with b[of p] show ?thesis by (simp add: busy_def split: if_splits)
    qed
  qed
  then show ?thesis by (simp add: one_each_def)
qed

lemma srun_loops_length:
  "srun es s = Some s' \<Longrightarrow> length (loops (wk s)) \<le> length (loops (wk s'))"
  using srun_worker run_loops_length by blast

lemma srun_one_each:
  "srun es s = Some s' \<Longrightarrow> length (loops (wk s')) \<le> 1 \<Longrightarrow> fresh_ports s \<Longrightarrow> one_each s
   \<Longrightarrow> one_each s'"
proof (induction es arbitrary: s)
  case Nil
  then show ?case by simp
next
  case (Cons e es)
  from Cons.prems(1) obtain s1 where st: "sstep e s = Some s1" and r: "srun es s1 = Some s'"
    by (auto simp del: sstep.simps split: option.splits)
  from srun_loops_length[OF r] Cons.prems(2) have "length (loops (wk s1)) \<le> 1" by simp
  from sstep_one_each[OF st this Cons.prems(3,4)] sstep_fresh_ports[OF st Cons.prems(3)]
  show ?case using Cons.IH[OF r Cons.prems(2)] by simp
qed

lemma start_one_each: "one_each (system_start d)"
  by (simp add: one_each_def pcount_def dcount_def system_start_def worker_start_def
                host_start_def)

lemma count_le_distinct: "(\<And>x. count_list xs x \<le> 1) \<Longrightarrow> distinct xs"
proof (induction xs)
  case Nil
  then show ?case by simp
next
  case (Cons a xs)
  from Cons.prems[of a] have "count_list xs a = 0" by simp
  then have "a \<notin> set xs" by (simp add: count_list_0_iff)
  moreover have "count_list xs x \<le> 1" for x
    using Cons.prems[of x] by (simp split: if_splits)
  ultimately show ?case using Cons.IH by simp
qed

lemma one_each_distinct: "one_each s \<Longrightarrow> distinct (map fst (replies (wk s)))"
proof (rule count_le_distinct)
  fix p
  assume "one_each s"
  then have "pcount p s + dcount p (wk s) \<le> 1" by (simp add: one_each_def)
  then show "count_list (map fst (replies (wk s))) p \<le> 1" by (simp add: dcount_def)
qed

lemma step_fns: "step e w = Some w' \<Longrightarrow> fns w \<subseteq> fns w'"
proof -
  assume "step e w = Some w'"
  from step_loops_grow[OF this] obtain fs where "map lfn (loops w') = map lfn (loops w) @ fs" ..
  then show ?thesis unfolding fns_def by (metis set_append sup_ge1)
qed

lemma sound_mono: "sound S w \<Longrightarrow> S \<subseteq> S' \<Longrightarrow> sound S' w"
  unfolding sound_def by (meson subsetD)

lemma sound_parts:
  assumes "sound S w" and "fns w \<subseteq> fns w'"
    and "\<And>v p. Send v p \<in> set (controls w') \<Longrightarrow> Send v p \<in> set (controls w) \<or> (v, p) \<in> S"
    and "\<And>l m. l \<in> set (loops w') \<Longrightarrow> m \<in> set (lqueue l) \<Longrightarrow>
           (\<exists>l'\<in>set (loops w). m \<in> set (lqueue l')) \<or> m \<in> S"
    and "\<And>h. h \<in> set (handlers w') \<Longrightarrow>
           (\<exists>h'\<in>set (handlers w). hvalue h = hvalue h' \<and> hresponse h = hresponse h'
              \<and> hfn h = hfn h')
           \<or> ((hvalue h, hresponse h) \<in> S \<and> hfn h \<in> fns w')"
    and "\<And>p r. (p, r) \<in> set (replies w') \<Longrightarrow>
           (p, r) \<in> set (replies w) \<or> (\<exists>v f. (v, p) \<in> S \<and> f \<in> fns w' \<and> r = to_result (f v))"
  shows "sound S w'"
proof -
  have a: "(v, p) \<in> S" if "Send v p \<in> set (controls w')" for v p
    using assms(3)[OF that] assms(1) unfolding sound_def by blast
  have b: "m \<in> S" if "l \<in> set (loops w')" "m \<in> set (lqueue l)" for l m
    using assms(4)[OF that] assms(1) unfolding sound_def by blast
  have c: "(hvalue h, hresponse h) \<in> S \<and> hfn h \<in> fns w'" if "h \<in> set (handlers w')" for h
    using assms(5)[OF that] assms(1,2) unfolding sound_def by (metis subsetD)
  have d: "\<exists>v f. (v, p) \<in> S \<and> f \<in> fns w' \<and> r = to_result (f v)"
    if "(p, r) \<in> set (replies w')" for p r
    using assms(6)[OF that] assms(1,2) unfolding sound_def by (meson subsetD)
  from a b c d show ?thesis unfolding sound_def by blast
qed

lemma sound_fields:
  assumes "sound S w" and "controls w' = controls w" and "replies w' = replies w"
    and "loops w' = loops w" and "handlers w' = handlers w"
  shows "sound S w'"
  using assms by (simp add: sound_def fns_def)

lemma sound_dispatch:
  assumes "sound S w" and "controls w = c # cs"
  shows "sound S (dispatch c (w\<lparr>controls := cs\<rparr>))"
proof (cases c)
  case (Init d)
  with assms show ?thesis by (auto simp: sound_def fns_def)
next
  case Close
  with assms show ?thesis by (auto simp: sound_def fns_def resolve_def)
next
  case (Send v p)
  with assms have vp: "(v, p) \<in> S" by (auto simp: sound_def)
  define w' where "w' = dispatch c (w\<lparr>controls := cs\<rparr>)"
  have l: "loops w' = map (enqueue (v, p)) (loops w)" and c: "controls w' = cs"
    and h: "handlers w' = handlers w" and r: "replies w' = replies w"
    using Send by (simp_all add: w'_def sent_send_def)
  have "sound S w'"
  proof (rule sound_parts[OF assms(1)])
    have "map lfn (map (enqueue (v, p)) (loops w)) = map lfn (loops w)"
      by (simp add: enqueue_def)
    then show "fns w \<subseteq> fns w'"
      using l by (simp add: fns_def del: map_map)
    show "Send u q \<in> set (controls w') \<Longrightarrow> Send u q \<in> set (controls w) \<or> (u, q) \<in> S"
      for u q
      using c assms(2) by simp
    show "x \<in> set (loops w') \<Longrightarrow> m \<in> set (lqueue x) \<Longrightarrow>
            (\<exists>l'\<in>set (loops w). m \<in> set (lqueue l')) \<or> m \<in> S" for x m
      using l vp by (auto simp: enqueue_def split: if_splits)
    show "x \<in> set (handlers w') \<Longrightarrow>
            (\<exists>h'\<in>set (handlers w). hvalue x = hvalue h' \<and> hresponse x = hresponse h'
               \<and> hfn x = hfn h')
            \<or> ((hvalue x, hresponse x) \<in> S \<and> hfn x \<in> fns w')" for x
      using h by auto
    show "(q, y) \<in> set (replies w') \<Longrightarrow>
            (q, y) \<in> set (replies w)
            \<or> (\<exists>v f. (v, q) \<in> S \<and> f \<in> fns w' \<and> y = to_result (f v))" for q y
      using r by simp
  qed
  then show ?thesis by (simp add: w'_def)
qed

lemma sound_loop_take:
  assumes "sound S w" and "j < length (loops w)" and "lqueue (loops w ! j) \<noteq> []"
  shows "sound S (loop_take j w)"
proof -
  define l where "l = loops w ! j"
  define m where "m = hd (lqueue l)"
  define w' where "w' = loop_take j w"
  have lm: "l \<in> set (loops w)" "m \<in> set (lqueue l)"
    using assms(2,3) by (simp_all add: l_def m_def)
  with assms(1) have mS: "m \<in> S" unfolding sound_def by blast
  have lw: "loops w' = (loops w)[j := l\<lparr>lqueue := tl (lqueue l)\<rparr>]"
    and hw: "handlers w' = handlers w @
      [\<lparr>howner = lowner l, hfn = lfn l, hvalue = fst m, hresponse = snd m, hstatus = Pending\<rparr>]"
    and cw: "controls w' = controls w" and rw: "replies w' = replies w"
    by (simp_all add: w'_def loop_take_def Let_def l_def m_def)
  have "map lfn (loops w') = map lfn (loops w)"
    using lw assms(2) by (simp add: list_eq_iff_nth_eq nth_list_update l_def)
  then have f: "fns w \<subseteq> fns w'" by (simp add: fns_def)
  have "sound S w'"
  proof (rule sound_parts[OF assms(1) f])
    show "Send u q \<in> set (controls w') \<Longrightarrow> Send u q \<in> set (controls w) \<or> (u, q) \<in> S"
      for u q
      using cw by simp
    show "x \<in> set (loops w') \<Longrightarrow> y \<in> set (lqueue x) \<Longrightarrow>
            (\<exists>l'\<in>set (loops w). y \<in> set (lqueue l')) \<or> y \<in> S" for x y
    proof -
      assume x: "x \<in> set (loops w')" and y: "y \<in> set (lqueue x)"
      from x lw have "x = l\<lparr>lqueue := tl (lqueue l)\<rparr> \<or> x \<in> set (loops w)"
        using set_update_subset_insert[of "loops w" j] by auto
      then show ?thesis
      proof
        assume "x = l\<lparr>lqueue := tl (lqueue l)\<rparr>"
        with y have "y \<in> set (lqueue l)"
          by (cases "lqueue l") auto
        with lm(1) show ?thesis by blast
      next
        assume "x \<in> set (loops w)"
        with y show ?thesis by blast
      qed
    qed
    show "x \<in> set (handlers w') \<Longrightarrow>
            (\<exists>h'\<in>set (handlers w). hvalue x = hvalue h' \<and> hresponse x = hresponse h'
               \<and> hfn x = hfn h')
            \<or> ((hvalue x, hresponse x) \<in> S \<and> hfn x \<in> fns w')" for x
      using hw mS lm(1) f by (auto simp: fns_def)
    show "(q, y) \<in> set (replies w') \<Longrightarrow>
            (q, y) \<in> set (replies w)
            \<or> (\<exists>v f. (v, q) \<in> S \<and> f \<in> fns w' \<and> y = to_result (f v))" for q y
      using rw by simp
  qed
  then show ?thesis by (simp add: w'_def)
qed

lemma sound_handler_run:
  assumes "sound S w" and "k < length (handlers w)"
  shows "sound S (handler_run k w)"
proof -
  define h where "h = handlers w ! k"
  define w' where "w' = handler_run k w"
  have hm: "h \<in> set (handlers w)"
    using assms(2) by (simp add: h_def)
  with assms(1) have hS: "(hvalue h, hresponse h) \<in> S" "hfn h \<in> fns w"
    unfolding sound_def by blast+
  have lw: "loops w' = loops w" and cw: "controls w' = controls w"
    and hw: "handlers w' = (handlers w)[k := h\<lparr>hstatus := Finished\<rparr>]"
    and rw: "replies w' = replies w @ [(hresponse h, to_result (hfn h (hvalue h)))]"
    by (simp_all add: w'_def handler_run_def Let_def h_def)
  have f: "fns w \<subseteq> fns w'" using lw by (simp add: fns_def)
  have "sound S w'"
  proof (rule sound_parts[OF assms(1) f])
    show "Send u q \<in> set (controls w') \<Longrightarrow> Send u q \<in> set (controls w) \<or> (u, q) \<in> S"
      for u q
      using cw by simp
    show "x \<in> set (loops w') \<Longrightarrow> y \<in> set (lqueue x) \<Longrightarrow>
            (\<exists>l'\<in>set (loops w). y \<in> set (lqueue l')) \<or> y \<in> S" for x y
      using lw by auto
    show "x \<in> set (handlers w') \<Longrightarrow>
            (\<exists>h'\<in>set (handlers w). hvalue x = hvalue h' \<and> hresponse x = hresponse h'
               \<and> hfn x = hfn h')
            \<or> ((hvalue x, hresponse x) \<in> S \<and> hfn x \<in> fns w')" for x
    proof -
      assume "x \<in> set (handlers w')"
      with hw have "x = h\<lparr>hstatus := Finished\<rparr> \<or> x \<in> set (handlers w)"
        using set_update_subset_insert[of "handlers w" k] by auto
      with hm show ?thesis by auto
    qed
    show "(q, y) \<in> set (replies w') \<Longrightarrow>
            (q, y) \<in> set (replies w)
            \<or> (\<exists>v f. (v, q) \<in> S \<and> f \<in> fns w' \<and> y = to_result (f v))" for q y
      using rw hS f by auto
  qed
  then show ?thesis by (simp add: w'_def)
qed

lemma sound_for_each:
  assumes "sound S w"
  shows "sound S (w\<lparr>loops := loops w @ [\<lparr>lowner = i, lfn = f, lqueue = [], lalive = True\<rparr>]\<rparr>)"
proof (rule sound_parts[OF assms])
  let ?w' = "w\<lparr>loops := loops w @ [\<lparr>lowner = i, lfn = f, lqueue = [], lalive = True\<rparr>]\<rparr>"
  show "fns w \<subseteq> fns ?w'" by (auto simp: fns_def)
  show "Send u q \<in> set (controls ?w') \<Longrightarrow> Send u q \<in> set (controls w) \<or> (u, q) \<in> S"
    for u q by simp
  show "x \<in> set (loops ?w') \<Longrightarrow> y \<in> set (lqueue x) \<Longrightarrow>
          (\<exists>l'\<in>set (loops w). y \<in> set (lqueue l')) \<or> y \<in> S" for x y
    by auto
  show "x \<in> set (handlers ?w') \<Longrightarrow>
          (\<exists>h'\<in>set (handlers w). hvalue x = hvalue h' \<and> hresponse x = hresponse h'
             \<and> hfn x = hfn h')
          \<or> ((hvalue x, hresponse x) \<in> S \<and> hfn x \<in> fns ?w')" for x
    by auto
  show "(q, y) \<in> set (replies ?w') \<Longrightarrow>
          (q, y) \<in> set (replies w)
          \<or> (\<exists>v f'. (v, q) \<in> S \<and> f' \<in> fns ?w' \<and> y = to_result (f' v))" for q y
    by simp
qed

lemma step_sound:
  assumes "step e w = Some w'" and "sound S w"
    and "\<forall>v p. e = Deliver (Send v p) \<longrightarrow> (v, p) \<in> S"
  shows "sound S w'"
proof (cases e)
  case (Deliver c)
  with assms show ?thesis by (auto simp: sound_def fns_def)
next
  case Dispatch
  with assms(1) obtain c cs where "controls w = c # cs" "w' = dispatch c (w\<lparr>controls := cs\<rparr>)"
    by (auto split: if_splits list.splits)
  with sound_dispatch[OF assms(2)] show ?thesis by simp
next
  case (BodyForEach i f)
  with assms(1) sound_for_each[OF assms(2), of i f] show ?thesis
    by (auto split: if_splits)
next
  case (LoopTake j)
  with assms(1) sound_loop_take[OF assms(2), of j] show ?thesis
    by (auto split: if_splits)
next
  case (HandlerRun k)
  with assms(1) sound_handler_run[OF assms(2), of k] show ?thesis
    by (auto split: if_splits)
next
  case (BodyReturn i v)
  with assms(1) have "w' = body_end i (Ok v) w" by (auto split: if_splits)
  then show ?thesis
    by (intro sound_fields[OF assms(2)]) (simp_all add: body_end_def resolve_def)
next
  case (BodyThrow i x)
  with assms(1) have "w' = body_end i (Err x) w" by (auto split: if_splits)
  then show ?thesis
    by (intro sound_fields[OF assms(2)]) (simp_all add: body_end_def resolve_def)
next
  case Finalize
  with assms(1) obtain r where "w' = finalize r w" by (auto split: if_splits option.splits)
  then show ?thesis
    by (intro sound_fields[OF assms(2)]) (simp_all add: finalize_def)
qed

lemma of_to_result: "of_result (to_result y) = y"
  by (cases y) (simp_all add: of_result_def to_result_def)

lemma hstep_sent_set: "hstep e h = Some h' \<Longrightarrow> sent_set h \<subseteq> sent_set h'"
proof -
  assume "hstep e h = Some h'"
  from hstep_outbox_grows[OF this] show ?thesis by (auto simp: sent_set_def)
qed

lemma sstep_H_kind:
  "sstep (H e) s = Some s' \<Longrightarrow> (\<forall>p r. e \<noteq> Response p r) \<and> (\<forall>m. e \<noteq> Receive m)"
  by (cases e) auto

lemma answers_ok_host:
  assumes "answers_ok s" and "hstep e (hs s) = Some h'" and "returned h' = returned (hs s)"
    and "hs s' = h'" and "wk s' = wk s"
  shows "answers_ok s'"
proof -
  from hstep_sent_set[OF assms(2)] have m: "sent_set (hs s) \<subseteq> sent_set h'" .
  from assms(1) have "sound (sent_set (hs s)) (wk s)" by (simp add: answers_ok_def)
  from sound_mono[OF this m] have a: "sound (sent_set (hs s')) (wk s')"
    using assms(4,5) by simp
  have "p \<in> fst ` set (replies (wk s'))
           \<and> (\<exists>v f. (v, p) \<in> sent_set (hs s') \<and> f \<in> fns (wk s') \<and> x = f v)"
    if "(p, x) \<in> set (returned (hs s'))" for p x
  proof -
    from that assms(3,4) have "(p, x) \<in> set (returned (hs s))" by simp
    with assms(1) have "p \<in> fst ` set (replies (wk s))"
      and "\<exists>v f. (v, p) \<in> sent_set (hs s) \<and> f \<in> fns (wk s) \<and> x = f v"
      unfolding answers_ok_def by blast+
    with m assms(4,5) show ?thesis by (metis subsetD)
  qed
  with a show ?thesis unfolding answers_ok_def by blast
qed

lemma answers_ok_worker:
  assumes "answers_ok s" and "step e (wk s) = Some w'"
    and "\<forall>v p. e = Deliver (Send v p) \<longrightarrow> (v, p) \<in> sent_set (hs s)"
    and "hs s' = hs s" and "wk s' = w'"
  shows "answers_ok s'"
proof -
  from assms(1) have "sound (sent_set (hs s)) (wk s)" by (simp add: answers_ok_def)
  from step_sound[OF assms(2) this assms(3)] have a: "sound (sent_set (hs s')) (wk s')"
    using assms(4,5) by simp
  from step_replies_grow[OF assms(2)] obtain rs where rs: "replies w' = replies (wk s) @ rs" ..
  have "p \<in> fst ` set (replies (wk s'))
           \<and> (\<exists>v f. (v, p) \<in> sent_set (hs s') \<and> f \<in> fns (wk s') \<and> x = f v)"
    if "(p, x) \<in> set (returned (hs s'))" for p x
  proof -
    from that assms(4) have "(p, x) \<in> set (returned (hs s))" by simp
    with assms(1) have r: "p \<in> fst ` set (replies (wk s))"
      and "\<exists>v f. (v, p) \<in> sent_set (hs s) \<and> f \<in> fns (wk s) \<and> x = f v"
      unfolding answers_ok_def by blast+
    then obtain v f where "(v, p) \<in> sent_set (hs s)" "f \<in> fns (wk s)" "x = f v" by blast
    with step_fns[OF assms(2)] assms(4,5)
    have "\<exists>v f. (v, p) \<in> sent_set (hs s') \<and> f \<in> fns (wk s') \<and> x = f v" by auto
    moreover from r rs assms(5) have "p \<in> fst ` set (replies (wk s'))" by auto
    ultimately show ?thesis by simp
  qed
  with a show ?thesis unfolding answers_ok_def by blast
qed

lemma answers_ok_reply:
  assumes "answers_ok s" and "map_of (replies (wk s)) p = Some r"
    and "hstep (Response p r) (hs s) = Some h'"
  shows "answers_ok (s\<lparr>hs := h'\<rparr>)"
proof -
  from hstep_sent_set[OF assms(3)] have m: "sent_set (hs s) \<subseteq> sent_set h'" .
  from assms(1) have so: "sound (sent_set (hs s)) (wk s)" by (simp add: answers_ok_def)
  from sound_mono[OF this m] have a: "sound (sent_set (hs (s\<lparr>hs := h'\<rparr>))) (wk (s\<lparr>hs := h'\<rparr>))"
    by simp
  from assms(2) have pr: "(p, r) \<in> set (replies (wk s))" by (rule map_of_SomeD)
  with so obtain v f where vf: "(v, p) \<in> sent_set (hs s)" "f \<in> fns (wk s)"
    "r = to_result (f v)"
    unfolding sound_def by blast
  from hstep_returned[OF assms(3)]
  have ret: "returned h' = returned (hs s) @ [(p, of_result r)]" by auto
  have "q \<in> fst ` set (replies (wk s))
           \<and> (\<exists>v f. (v, q) \<in> sent_set h' \<and> f \<in> fns (wk s) \<and> x = f v)"
    if "(q, x) \<in> set (returned h')" for q x
  proof (cases "(q, x) \<in> set (returned (hs s))")
    case True
    with assms(1) have "q \<in> fst ` set (replies (wk s))"
      and "\<exists>v f. (v, q) \<in> sent_set (hs s) \<and> f \<in> fns (wk s) \<and> x = f v"
      unfolding answers_ok_def by blast+
    with m show ?thesis by (metis subsetD)
  next
    case False
    with that ret have "q = p" "x = of_result r" by auto
    with vf pr m show ?thesis by (force simp: of_to_result)
  qed
  with a show ?thesis unfolding answers_ok_def by simp
qed

lemma sstep_answers_ok:
  assumes "sstep e s = Some s'" and "answers_ok s"
  shows "answers_ok s'"
proof (cases e)
  case (W x)
  from sstep_W[OF assms(1)[unfolded W]] obtain w' where st: "step x (wk s) = Some w'"
    and s': "s' = s\<lparr>wk := w'\<rparr>" and nd: "\<forall>c. x \<noteq> Deliver c"
    by blast
  from answers_ok_worker[OF assms(2) st, of s'] nd s' show ?thesis by simp
next
  case (H x)
  from sstep_H[OF assms(1)[unfolded H]] obtain h' where st: "hstep x (hs s) = Some h'"
    and s': "s' = s\<lparr>hs := h'\<rparr>"
    by blast
  from sstep_H_kind[OF assms(1)[unfolded H]] hstep_returned[OF st]
  have "returned h' = returned (hs s)" by auto
  from answers_ok_host[OF assms(2) st this, of s'] s' show ?thesis by simp
next
  case ToWorker
  from sstep_ToWorker[OF assms(1)[unfolded ToWorker]]
  have lt: "wseen s < length (outbox (hs s))"
    and s': "s' = s\<lparr>wseen := Suc (wseen s),
              wk := (wk s)\<lparr>controls := controls (wk s) @ [outbox (hs s) ! wseen s]\<rparr>\<rparr>"
    by auto
  have st: "step (Deliver (outbox (hs s) ! wseen s)) (wk s)
              = Some ((wk s)\<lparr>controls := controls (wk s) @ [outbox (hs s) ! wseen s]\<rparr>)"
    by simp
  have "\<forall>v p. Deliver (outbox (hs s) ! wseen s) = Deliver (Send v p) \<longrightarrow>
          (v, p) \<in> sent_set (hs s)"
    using nth_mem[OF lt] by (auto simp: sent_set_def)
  from answers_ok_worker[OF assms(2) st this, of s'] s' show ?thesis by simp
next
  case ToHost
  from sstep_ToHost[OF assms(1)[unfolded ToHost]] obtain h' where
    st: "hstep (Receive (posted (wk s) ! hseen s)) (hs s) = Some h'"
    and s': "s' = s\<lparr>hseen := Suc (hseen s), hs := h'\<rparr>"
    by blast
  from hstep_returned[OF st] have "returned h' = returned (hs s)" by auto
  from answers_ok_host[OF assms(2) st this, of s'] s' show ?thesis by simp
next
  case (Reply p)
  from sstep_Reply[OF assms(1)[unfolded Reply]] obtain r h' where
    m: "map_of (replies (wk s)) p = Some r"
    and st: "hstep (Response p r) (hs s) = Some h'" and s': "s' = s\<lparr>hs := h'\<rparr>"
    by blast
  from answers_ok_reply[OF assms(2) m st] s' show ?thesis by simp
qed

lemma srun_answers_ok: "srun es s = Some s' \<Longrightarrow> answers_ok s \<Longrightarrow> answers_ok s'"
  by (induction es arbitrary: s)
     (auto simp del: sstep.simps split: option.splits dest: sstep_answers_ok)

lemma start_answers_ok: "answers_ok (system_start d)"
  by (simp add: answers_ok_def sound_def system_start_def worker_start_def host_start_def)

lemma sstep_gone:
  assumes "sstep e s = Some s'" and "gone p s"
  shows "gone p s'"
proof -
  from assms(2) have le: "wseen s \<le> length (outbox (hs s))" by (simp add: gone_def)
  from sstep_moved[OF assms(1) le, of p] assms(2) show ?thesis
    by (auto simp: moved_def gone_def)
qed

lemma srun_gone: "srun es s = Some s' \<Longrightarrow> gone p s \<Longrightarrow> gone p s'"
  by (induction es arbitrary: s)
     (auto simp del: sstep.simps split: option.splits dest: sstep_gone)

lemma gone_no_reply: "gone p s \<Longrightarrow> p \<notin> fst ` set (replies (wk s))"
proof -
  assume "gone p s"
  then have "count_list (map fst (replies (wk s))) p = 0"
    by (simp add: gone_def dcount_def)
  then have "p \<notin> set (map fst (replies (wk s)))" by (simp add: count_list_0_iff)
  then show ?thesis by simp
qed

lemma hstep_calls_live: "hstep e h = Some h' \<Longrightarrow> calls_live h \<Longrightarrow> calls_live h'"
proof (cases e)
  case (Receive m)
  assume "hstep e h = Some h'" "calls_live h"
  with Receive show ?thesis
    by (auto simp: calls_live_def handshake_def onclose_keeps Let_def split: if_splits)
next
  case (Response p r)
  assume "hstep e h = Some h'" "calls_live h"
  with Response show ?thesis
    by (cases "waiting h = []") (auto simp: calls_live_def resume_send_def split: if_splits)
next
  case Settle
  assume "hstep e h = Some h'" "calls_live h"
  with Settle show ?thesis
    by (cases "hphase h"; cases "houtcome h")
       (auto simp: calls_live_def end_teardown_releases)
qed (auto simp: calls_live_def call_send_def begin_teardown_def split: if_splits)

lemma hrun_calls_live: "hrun es h = Some h' \<Longrightarrow> calls_live h \<Longrightarrow> calls_live h'"
  by (induction es arbitrary: h) (auto split: option.splits dest: hstep_calls_live)

lemma hstep_call_waits:
  assumes "hstep e h = Some h'" and "call_waits p v h" and "\<forall>r. e \<noteq> Response p r"
  shows "call_waits p v h'"
proof (cases e)
  case (Receive m)
  with assms show ?thesis
    by (auto simp: call_waits_def in_teardown_def onclose_keeps Let_def split: if_splits)
next
  case (CallSend u)
  with assms show ?thesis
    by (auto simp: call_waits_def in_teardown_def call_send_def split: if_splits)
next
  case (Response q r)
  with assms have "q \<noteq> p" by simp
  with Response assms(1,2) show ?thesis
    by (auto simp: call_waits_def in_teardown_def resume_send_def split: if_splits)
next
  case (ScopeExit x)
  with assms show ?thesis
    by (auto simp: call_waits_def in_teardown_def begin_teardown_def split: if_splits)
next
  case Settle
  with assms show ?thesis
    by (cases "hphase h"; cases "houtcome h")
       (auto simp: call_waits_def in_teardown_def end_teardown_releases)
qed

lemma sstep_call_waits:
  assumes "sstep e s = Some s'" and "call_waits p v (hs s)" and "gone p s"
  shows "call_waits p v (hs s')"
proof (cases e)
  case (W x)
  from sstep_W[OF assms(1)[unfolded W]] assms(2) show ?thesis by auto
next
  case (H x)
  from sstep_H[OF assms(1)[unfolded H]] obtain h' where st: "hstep x (hs s) = Some h'"
    and s': "s' = s\<lparr>hs := h'\<rparr>"
    by blast
  from sstep_H_kind[OF assms(1)[unfolded H]] have "\<forall>r. x \<noteq> Response p r" by simp
  from hstep_call_waits[OF st assms(2) this] s' show ?thesis by simp
next
  case ToWorker
  from sstep_ToWorker[OF assms(1)[unfolded ToWorker]] assms(2) show ?thesis by simp
next
  case ToHost
  from sstep_ToHost[OF assms(1)[unfolded ToHost]] obtain h' where
    st: "hstep (Receive (posted (wk s) ! hseen s)) (hs s) = Some h'"
    and s': "s' = s\<lparr>hseen := Suc (hseen s), hs := h'\<rparr>"
    by blast
  from hstep_call_waits[OF st assms(2)] s' show ?thesis by simp
next
  case (Reply q)
  from sstep_Reply[OF assms(1)[unfolded Reply]] obtain r h' where
    m: "map_of (replies (wk s)) q = Some r"
    and st: "hstep (Response q r) (hs s) = Some h'" and s': "s' = s\<lparr>hs := h'\<rparr>"
    by blast
  from m have "q \<in> fst ` set (replies (wk s))" by (force dest: map_of_SomeD)
  with gone_no_reply[OF assms(3)] have "q \<noteq> p" by auto
  then have "\<forall>r'. Response q r \<noteq> Response p r'" by simp
  from hstep_call_waits[OF st assms(2) this] s' show ?thesis by simp
qed

lemma srun_call_waits:
  "srun es s = Some s' \<Longrightarrow> call_waits p v (hs s) \<Longrightarrow> gone p s \<Longrightarrow> call_waits p v (hs s')"
proof (induction es arbitrary: s)
  case Nil
  then show ?case by simp
next
  case (Cons e es)
  from Cons.prems(1) obtain s1 where st: "sstep e s = Some s1" and r: "srun es s1 = Some s'"
    by (auto simp del: sstep.simps split: option.splits)
  from Cons.IH[OF r sstep_call_waits[OF st Cons.prems(2,3)] sstep_gone[OF st Cons.prems(3)]]
  show ?case .
qed

lemmas scenario_ops =
  system_ops host_ops worker_ops enqueue_def to_result_def

lemma srun_hports: "srun es (system_start d) = Some s \<Longrightarrow> hports (hs s)"
proof -
  assume "srun es (system_start d) = Some s"
  from srun_host[OF this] obtain xs where "hrun xs (host_start d) = Some (hs s)"
    by (auto simp: system_start_def)
  with hrun_hports start_hports show ?thesis by blast
qed

lemma srun_calls_live: "srun es (system_start d) = Some s \<Longrightarrow> calls_live (hs s)"
proof -
  assume "srun es (system_start d) = Some s"
  from srun_host[OF this] obtain xs where "hrun xs (host_start d) = Some (hs s)"
    by (auto simp: system_start_def)
  moreover have "calls_live (host_start d)" by (simp add: calls_live_def host_start_def)
  ultimately show ?thesis using hrun_calls_live by blast
qed

text \<open>
  C8, as the spec states it, fails: when the body iterates the requests with two
  \<open>forEach\<close> loops at the same time, each loop receives the request and spawns a handler,
  and two responses are posted on the one response port of a single \<open>send\<close>.
\<close>

theorem two_loops_answer_twice:
  "map_option answers (srun double_for_each (system_start ''d''))
     = Some [(0, Ok ''a''), (0, Ok ''b'')]"
  by (simp add: double_for_each_def answers_def scenario_ops)

text \<open>
  C8, amended. In every state host and worker reach together: whatever a call of \<open>send\<close>
  on port \<open>p\<close> returned is what a handler function given to \<open>forEach\<close> yields on the value
  that call sent, and no other call sent on \<open>p\<close>; no call returned twice; and when the
  body has called \<open>forEach\<close> at most once, at most one response was posted on each
  response port.
\<close>

theorem calls_get_own_response:
  assumes "srun es (system_start d) = Some s"
  shows "(\<forall>p x. (p, x) \<in> set (returned (hs s)) \<longrightarrow>
            (\<exists>v f. Send v p \<in> set (outbox (hs s))
               \<and> (\<forall>v'. Send v' p \<in> set (outbox (hs s)) \<longrightarrow> v' = v)
               \<and> f \<in> fns (wk s) \<and> x = f v))
       \<and> distinct (map fst (returned (hs s)))
       \<and> (length (loops (wk s)) \<le> 1 \<longrightarrow> distinct (map fst (replies (wk s))))"
proof -
  have hp: "hports (hs s)" using assms by (rule srun_hports)
  have ao: "answers_ok s"
    using assms srun_answers_ok start_answers_ok by blast
  have a: "\<exists>v f. Send v p \<in> set (outbox (hs s))
               \<and> (\<forall>v'. Send v' p \<in> set (outbox (hs s)) \<longrightarrow> v' = v)
               \<and> f \<in> fns (wk s) \<and> x = f v"
    if "(p, x) \<in> set (returned (hs s))" for p x
  proof -
    from ao that obtain v f where v: "(v, p) \<in> sent_set (hs s)" and f: "f \<in> fns (wk s)"
      and x: "x = f v"
      unfolding answers_ok_def by blast
    from v have s: "Send v p \<in> set (outbox (hs s))" by (simp add: sent_set_def)
    from hp have "distinct (ports (outbox (hs s)))" by (simp add: hports_def)
    from ports_unique[OF this _ s] have "\<forall>v'. Send v' p \<in> set (outbox (hs s)) \<longrightarrow> v' = v"
      by blast
    with s f x show ?thesis by blast
  qed
  have b: "distinct (map fst (returned (hs s)))"
    using hp by (simp add: hports_def)
  have c: "distinct (map fst (replies (wk s)))" if "length (loops (wk s)) \<le> 1"
    using srun_one_each[OF assms that start_fresh_ports start_one_each]
    by (rule one_each_distinct)
  from a b c show ?thesis by blast
qed

text \<open>One round trip with a handler that appends an exclamation mark.\<close>

theorem calls_get_own_response_witness:
  "\<exists>s. srun (round_trip ''ping'' (\<lambda>v. Inr (v @ ''!''))) (system_start ''d'') = Some s
     \<and> results s = [(0, Inr ''ping!'')] \<and> length (loops (wk s)) \<le> 1
     \<and> distinct (map fst (replies (wk s)))"
proof -
  obtain s where
    r: "srun (round_trip ''ping'' (\<lambda>v. Inr (v @ ''!''))) (system_start ''d'') = Some s"
    and x: "results s = [(0, Inr ''ping!'')]" and l: "length (loops (wk s)) \<le> 1"
    by (simp add: round_trip_def results_def scenario_ops)
  from calls_get_own_response[OF r] l have "distinct (map fst (replies (wk s)))" by blast
  with r x l show ?thesis by blast
qed

text \<open>
  C1. In every state host and worker reach together in which the handle is provided,
  \<open>send(v)\<close> can be called. It takes the next port \<open>p\<close>, which occurs in no message posted
  so far, in no waiting or returned call and in no reply, posts \<open>send\<close> with \<open>v\<close> and \<open>p\<close>
  after everything posted before, and waits: nothing is returned yet, and the call
  cannot be resumed as long as no reply is posted on \<open>p\<close>. Any response \<open>r\<close> on \<open>p\<close> then
  ends the call, which returns the value of \<open>Ok\<close> and throws the error of \<open>Err\<close>. In the
  round trip \<open>round_trip v f\<close> the call returns what \<open>f\<close> gives on \<open>v\<close>; and when every
  handler function given to \<open>forEach\<close> returns \<open>"pong"\<close> on every value, every call that
  returned, whatever the schedule, returned \<open>"pong"\<close>.
\<close>

theorem send_round_trip:
  assumes "srun es (system_start d) = Some s" and "hphase (hs s) = Ready"
    and "p = next_port (hs s)"
  shows "\<exists>h'. hstep (CallSend v) (hs s) = Some h'
       \<and> outbox h' = outbox (hs s) @ [Send v p]
       \<and> p \<notin> set (ports (outbox (hs s))) \<and> p \<notin> fst ` set (waiting (hs s))
       \<and> p \<notin> fst ` set (returned (hs s)) \<and> p \<notin> fst ` set (replies (wk s))
       \<and> waiting h' = waiting (hs s) @ [(p, v)] \<and> returned h' = returned (hs s)
       \<and> sstep (Reply p) (s\<lparr>hs := h'\<rparr>) = None
       \<and> (\<forall>r. \<exists>h''. hstep (Response p r) h' = Some h''
              \<and> returned h'' = returned (hs s) @ [(p, of_result r)]
              \<and> p \<notin> fst ` set (waiting h''))
       \<and> (\<forall>y. of_result (Ok y) = Inr y) \<and> (\<forall>e. of_result (Err e) = Inl e)
       \<and> map_option results (srun (round_trip v f) (system_start d)) = Some [(0, f v)]
       \<and> ((\<forall>g\<in>fns (wk s). \<forall>u. g u = Inr ''pong'') \<longrightarrow>
            (\<forall>q x. (q, x) \<in> set (returned (hs s)) \<longrightarrow> x = Inr ''pong''))"
proof -
  define h' where "h' = call_send v (hs s)"
  have st: "hstep (CallSend v) (hs s) = Some h'"
    using assms(2) by (simp add: h'_def)
  have f: "outbox h' = outbox (hs s) @ [Send v p]" "waiting h' = waiting (hs s) @ [(p, v)]"
    "returned h' = returned (hs s)"
    by (simp_all add: h'_def call_send_def assms(3))
  have hp: "hports (hs s)" using assms(1) by (rule srun_hports)
  have n1: "p \<notin> set (ports (outbox (hs s)))"
    using hp assms(3) unfolding hports_def by auto
  have n2: "p \<notin> fst ` set (waiting (hs s))"
  proof
    assume "p \<in> fst ` set (waiting (hs s))"
    then obtain u where "(p, u) \<in> set (waiting (hs s))" by auto
    with hp have "Send u p \<in> set (outbox (hs s))" unfolding hports_def by blast
    with n1 Send_in_ports show False by blast
  qed
  have n3: "p \<notin> fst ` set (returned (hs s))"
    using hp assms(3) unfolding hports_def by force
  have fp: "fresh_ports s"
    using assms(1) srun_fresh_ports start_fresh_ports by blast
  then have "pcount p s + busy p (wk s) \<le> 0"
    unfolding fresh_ports_def using assms(3) by (metis less_irrefl)
  then have "dcount p (wk s) = 0"
    by (simp add: busy_def split: if_splits)
  then have "count_list (map fst (replies (wk s))) p = 0" by (simp add: dcount_def)
  then have "p \<notin> set (map fst (replies (wk s)))" by (simp add: count_list_0_iff)
  then have n4: "p \<notin> fst ` set (replies (wk s))" by simp
  then have "map_of (replies (wk s)) p = None" by (simp add: map_of_eq_None_iff)
  then have d: "sstep (Reply p) (s\<lparr>hs := h'\<rparr>) = None" by simp
  have r: "\<exists>h''. hstep (Response p r) h' = Some h''
              \<and> returned h'' = returned (hs s) @ [(p, of_result r)]
              \<and> p \<notin> fst ` set (waiting h'')" for r
    using f by (auto simp: resume_send_def)
  have o: "(\<forall>y. of_result (Ok y) = Inr y) \<and> (\<forall>e. of_result (Err e) = Inl e)"
    by (simp add: of_result_def)
  have t: "map_option results (srun (round_trip v f) (system_start d)) = Some [(0, f v)]"
    by (cases "f v") (simp_all add: round_trip_def results_def scenario_ops)
  have ao: "answers_ok s"
    using assms(1) srun_answers_ok start_answers_ok by blast
  have g: "(\<forall>g\<in>fns (wk s). \<forall>u. g u = Inr ''pong'') \<longrightarrow>
            (\<forall>q x. (q, x) \<in> set (returned (hs s)) \<longrightarrow> x = Inr ''pong'')"
    using ao unfolding answers_ok_def by metis
  from st f n1 n2 n3 n4 d r o t g show ?thesis by blast
qed

text \<open>\<open>send("ping")\<close> against a handler that returns \<open>"pong"\<close>.\<close>

theorem send_round_trip_witness:
  "\<exists>s. srun (round_trip ''ping'' (\<lambda>v. Inr ''pong'')) (system_start ''d'') = Some s
     \<and> hphase (hs s) = Ready \<and> next_port (hs s) = 1
     \<and> returned (hs s) = [(0, Inr ''pong'')]
     \<and> map_option results (srun (round_trip ''ping'' (\<lambda>v. Inr ''pong'')) (system_start ''d''))
         = Some [(0, Inr ''pong'')]"
proof -
  obtain s where
    r: "srun (round_trip ''ping'' (\<lambda>v. Inr ''pong'')) (system_start ''d'') = Some s"
    and p: "hphase (hs s) = Ready" and n: "next_port (hs s) = 1"
    and x: "returned (hs s) = [(0, Inr ''pong'')]"
    by (simp add: round_trip_def scenario_ops)
  from send_round_trip[OF r p n[symmetric], of "''ping''" "\<lambda>v. Inr ''pong''"]
  have "map_option results (srun (round_trip ''ping'' (\<lambda>v. Inr ''pong'')) (system_start ''d''))
         = Some [(0, Inr ''pong'')]"
    by blast
  with r p n x show ?thesis by blast
qed

text \<open>
  C10. Take a state host and worker reach together in which the worker is not
  finalized, the next control message is \<open>send\<close> with value \<open>v\<close> and port \<open>p\<close>, and no
  \<open>forEach\<close> loop is subscribed to the requests. The dispatch loop
  handles the message, and nothing changes but the buffer: no queue, no handler, no
  reply. Whatever happens afterwards, no reply is ever posted on \<open>p\<close> and no call on \<open>p\<close>
  ever returns; a call that was waiting on \<open>p\<close> keeps waiting while the handle is
  provided, until the teardown of the host begins.
\<close>

theorem unheard_send_is_dropped:
  assumes "srun es (system_start d) = Some s" and "\<not> finalized (wk s)"
    and "controls (wk s) = Send v p # cs" and "\<forall>l\<in>set (loops (wk s)). \<not> lalive l"
  shows "\<exists>s1. sstep (W Dispatch) s = Some s1
       \<and> controls (wk s1) = cs \<and> loops (wk s1) = loops (wk s)
       \<and> handlers (wk s1) = handlers (wk s) \<and> replies (wk s1) = replies (wk s)
       \<and> (\<forall>es' s2. srun es' s1 = Some s2 \<longrightarrow>
             p \<notin> fst ` set (replies (wk s2)) \<and> p \<notin> fst ` set (returned (hs s2))
             \<and> ((p, v) \<in> set (waiting (hs s)) \<longrightarrow> call_waits p v (hs s2)))"
proof -
  define w1 where "w1 = dispatch (Send v p) ((wk s)\<lparr>controls := cs\<rparr>)"
  define s1 where "s1 = s\<lparr>wk := w1\<rparr>"
  have st: "sstep (W Dispatch) s = Some s1"
    using assms(2,3) by (simp add: s1_def w1_def lift_w_def)
  have na: "\<forall>l\<in>set (loops ((wk s)\<lparr>controls := cs\<rparr>)). \<not> lalive l"
    using assms(4) by simp
  have k: "controls w1 = cs" "handlers w1 = handlers (wk s)" "replies w1 = replies (wk s)"
    by (simp_all add: w1_def sent_send_def)
  have l: "loops w1 = loops (wk s)"
    using dcount_dispatch_dropped(1)[OF na, of v p] by (simp add: w1_def)
  have fp: "fresh_ports s"
    using assms(1) srun_fresh_ports start_fresh_ports by blast
  then have le: "wseen s \<le> length (outbox (hs s))"
    and b: "pcount p s + busy p (wk s) \<le> (if p < next_port (hs s) then 1 else 0)"
    by (auto simp: fresh_ports_def)
  have pc: "pcount p s = Suc (pcount p s1)"
    using assms(3) k(1) by (simp add: pcount_def s1_def)
  with b have z: "pcount p s1 = 0" "dcount p (wk s) = 0" "p < next_port (hs s)"
    by (auto simp: busy_def split: if_splits)
  have "dcount p w1 = dcount p (wk s)"
    by (rule dcount_fields) (simp_all add: k l)
  with z le have g: "gone p s1"
    by (simp add: gone_def s1_def)
  have ao: "answers_ok s1"
    using assms(1) st srun_answers_ok start_answers_ok sstep_answers_ok by blast
  have e: "p \<notin> fst ` set (replies (wk s2)) \<and> p \<notin> fst ` set (returned (hs s2))
             \<and> ((p, v) \<in> set (waiting (hs s)) \<longrightarrow> call_waits p v (hs s2))"
    if "srun es' s1 = Some s2" for es' s2
  proof -
    from srun_gone[OF that g] have g2: "gone p s2" .
    from gone_no_reply[OF this] have nr: "p \<notin> fst ` set (replies (wk s2))" .
    from srun_answers_ok[OF that ao] have "answers_ok s2" .
    with nr have nx: "p \<notin> fst ` set (returned (hs s2))"
      unfolding answers_ok_def by force
    have "call_waits p v (hs s2)" if w: "(p, v) \<in> set (waiting (hs s))"
    proof -
      from srun_calls_live[OF assms(1)] w have "hphase (hs s) = Ready"
        by (auto simp: calls_live_def)
      with w have "call_waits p v (hs s1)" by (simp add: call_waits_def s1_def)
      from srun_call_waits[OF \<open>srun es' s1 = Some s2\<close> this g] show ?thesis .
    qed
    with nr nx show ?thesis by blast
  qed
  from st k l e show ?thesis by (auto simp: s1_def)
qed

text \<open>The body was launched and has not called \<open>forEach\<close> when the request arrives.\<close>

theorem unheard_send_is_dropped_witness:
  "\<exists>s s1. srun unheard_send (system_start ''d'') = Some s
     \<and> \<not> finalized (wk s) \<and> controls (wk s) = [Send ''ping'' 0] \<and> loops (wk s) = []
     \<and> waiting (hs s) = [(0, ''ping'')]
     \<and> sstep (W Dispatch) s = Some s1 \<and> controls (wk s1) = [] \<and> replies (wk s1) = []"
proof -
  obtain s where r: "srun unheard_send (system_start ''d'') = Some s"
    and f: "\<not> finalized (wk s)" and c: "controls (wk s) = [Send ''ping'' 0]"
    and l: "loops (wk s) = []" and w: "waiting (hs s) = [(0, ''ping'')]"
    and p: "replies (wk s) = []"
    by (simp add: unheard_send_def scenario_ops)
  from l have na: "\<forall>l\<in>set (loops (wk s)). \<not> lalive l" by simp
  from unheard_send_is_dropped[OF r f c na] obtain s1 where
    "sstep (W Dispatch) s = Some s1" "controls (wk s1) = []" "replies (wk s1) = replies (wk s)"
    by blast
  with r f c l w p show ?thesis by (auto simp del: sstep.simps)
qed


end
